theory Spec2Isabelle
  imports Complex_Main "HOL-Library.AList" "HOL-Library.Sublist"
begin

section \<open>JavaScript values\<close>

text \<open>
  The filter engine and the sheet service work on \<^verbatim>\<open>any\<close>-typed JavaScript values:
  cells come from the Sheets API (strings, numbers, booleans), where-trees and patches
  from \<^verbatim>\<open>req.json()\<close>. No \<^verbatim>\<open>Date\<close> instance can come from either, so the
  \<^verbatim>\<open>instanceof Date\<close> branch of \<^verbatim>\<open>toDateTime\<close> is not reachable and
  the value type has no date case; the dates that \<^verbatim>\<open>toDateTime\<close> creates are the
  \<open>SDate\<close> scalars below.

  A number is an IEEE double. Only its order, its equality and its truthiness are used,
  and these are exact, so a finite double is represented by its real value
  (\<open>+0\<close> and \<open>-0\<close>, which no operation of this program tells apart, both by \<open>0\<close>).
  Strings are sequences of code units; \<open>char\<close> covers the code units below 256.
\<close>

datatype jsnum = NaN | NegInf | Fin real | PosInf

datatype jsval =
    JUndefined
  | JNull
  | JBool bool
  | JNum jsnum
  | JStr string
  | JArr "jsval list"
  | JObj "(string \<times> jsval) list"

datatype error = TypeError string | Error string

text \<open>
  The built-ins of the JavaScript runtime that parse and print numbers and dates are not
  part of the repository. They are parameters of the model:
  \<open>parseFloat\<close> is the global of that name, \<open>dateParse s\<close> is
  \<^verbatim>\<open>new Date(s).getTime()\<close> with \<open>None\<close> for \<^verbatim>\<open>NaN\<close>, and
  \<open>numToString\<close> is \<^verbatim>\<open>String\<close> on a number.
\<close>

record builtins =
  parseFloat :: "string \<Rightarrow> jsnum"
  dateParse :: "string \<Rightarrow> int option"
  numToString :: "jsnum \<Rightarrow> string"

subsection \<open>Numbers: \<^verbatim>\<open><\<close>, \<^verbatim>\<open><=\<close>, \<^verbatim>\<open>===\<close>\<close>

fun num_lt :: "jsnum \<Rightarrow> jsnum \<Rightarrow> bool" where
  "num_lt NaN _ = False"
| "num_lt _ NaN = False"
| "num_lt NegInf NegInf = False"
| "num_lt NegInf _ = True"
| "num_lt (Fin x) (Fin y) = (x < y)"
| "num_lt (Fin _) PosInf = True"
| "num_lt (Fin _) NegInf = False"
| "num_lt PosInf _ = False"

definition num_eq :: "jsnum \<Rightarrow> jsnum \<Rightarrow> bool" where
  "num_eq a b = (a \<noteq> NaN \<and> a = b)"

definition num_le :: "jsnum \<Rightarrow> jsnum \<Rightarrow> bool" where
  "num_le a b = (num_lt a b \<or> num_eq a b)"

definition num_gt :: "jsnum \<Rightarrow> jsnum \<Rightarrow> bool" where
  "num_gt a b = num_lt b a"

subsection \<open>Strings: \<^verbatim>\<open>trim\<close>, \<^verbatim>\<open>toLowerCase\<close>, \<^verbatim>\<open>includes\<close>, \<^verbatim>\<open>join\<close>, \<^verbatim>\<open><\<close>\<close>

definition isWhiteSpace :: "char \<Rightarrow> bool" where
  "isWhiteSpace c = ((of_char c :: nat) \<in> {9, 10, 11, 12, 13, 32, 160})"

definition trim :: "string \<Rightarrow> string" where
  "trim s = rev (dropWhile isWhiteSpace (rev (dropWhile isWhiteSpace s)))"

definition lowerChar :: "char \<Rightarrow> char" where
  "lowerChar c =
     (let n = (of_char c :: nat)
      in if (65 \<le> n \<and> n \<le> 90) \<or> (192 \<le> n \<and> n \<le> 222 \<and> n \<noteq> 215)
         then char_of (n + 32) else c)"

definition toLowerCase :: "string \<Rightarrow> string" where
  "toLowerCase s = map lowerChar s"

fun includes_js :: "string \<Rightarrow> string \<Rightarrow> bool" where
  "includes_js [] needle = (needle = [])"
| "includes_js (c # hay) needle = (prefix needle (c # hay) \<or> includes_js hay needle)"

fun join :: "string \<Rightarrow> string list \<Rightarrow> string" where
  "join sep [] = []"
| "join sep [s] = s"
| "join sep (s # t # ss) = s @ sep @ join sep (t # ss)"

fun str_lt :: "string \<Rightarrow> string \<Rightarrow> bool" where
  "str_lt [] [] = False"
| "str_lt [] (_ # _) = True"
| "str_lt (_ # _) [] = False"
| "str_lt (x # xs) (y # ys) =
     (if (of_char x :: nat) < of_char y then True
      else if (of_char y :: nat) < of_char x then False
      else str_lt xs ys)"

subsection \<open>Truthiness, \<^verbatim>\<open>typeof\<close>, property reads, \<^verbatim>\<open>String\<close>\<close>

fun truthy :: "jsval \<Rightarrow> bool" where
  "truthy JUndefined = False"
| "truthy JNull = False"
| "truthy (JBool b) = b"
| "truthy (JNum n) = (n \<noteq> NaN \<and> n \<noteq> Fin 0)"
| "truthy (JStr s) = (s \<noteq> [])"
| "truthy (JArr _) = True"
| "truthy (JObj _) = True"

fun typeofObject :: "jsval \<Rightarrow> bool" where
  "typeofObject JNull = True"
| "typeofObject (JArr _) = True"
| "typeofObject (JObj _) = True"
| "typeofObject _ = False"

fun isArray :: "jsval \<Rightarrow> bool" where
  "isArray (JArr _) = True"
| "isArray _ = False"

text \<open>
  \<open>getProp v k\<close> is the read \<^verbatim>\<open>v?.k\<close> for the property names this program reads:
  \<^verbatim>\<open>where\<close>, \<^verbatim>\<open>and\<close>, \<^verbatim>\<open>or\<close>, \<^verbatim>\<open>field\<close>,
  \<^verbatim>\<open>operator\<close>, \<^verbatim>\<open>value\<close>, \<^verbatim>\<open>values\<close>. A parsed JSON object has
  them as own properties or not at all; primitives and arrays have none of them
  (an array inherits a method \<^verbatim>\<open>values\<close>, which \<open>matchCondition\<close> destructures
  and never uses, its \<^verbatim>\<open>field\<close> being undefined).
\<close>

fun getProp :: "jsval \<Rightarrow> string \<Rightarrow> jsval" where
  "getProp (JObj kvs) k = (case map_of kvs k of None \<Rightarrow> JUndefined | Some v \<Rightarrow> v)"
| "getProp _ k = JUndefined"

text \<open>
  \<^verbatim>\<open>String(v)\<close>, which is also how \<^verbatim>\<open>v\<close> is read as a property key. An array
  is joined with commas, \<^verbatim>\<open>null\<close> and \<^verbatim>\<open>undefined\<close> elements as empty
  strings; an object is \<^verbatim>\<open>[object Object]\<close>. The objects of the model are the
  parsed JSON objects with distinct keys. On an object with an own property
  \<^verbatim>\<open>toString\<close> (a parsed value, never callable), alone or as an element of an array,
  \<^verbatim>\<open>String\<close> finds no conversion to a primitive and raises a TypeError:
  \<open>String_js\<close> is \<^verbatim>\<open>String\<close> on the values on which \<^verbatim>\<open>String\<close> returns, and
  \<open>String_checked\<close> below is \<^verbatim>\<open>String\<close> with its exception.
\<close>

fun String_js :: "builtins \<Rightarrow> jsval \<Rightarrow> string" where
  "String_js B JUndefined = ''undefined''"
| "String_js B JNull = ''null''"
| "String_js B (JBool b) = (if b then ''true'' else ''false'')"
| "String_js B (JNum n) = numToString B n"
| "String_js B (JStr s) = s"
| "String_js B (JArr xs) =
     join '','' (map (\<lambda>x. if x = JUndefined \<or> x = JNull then [] else String_js B x) xs)"
| "String_js B (JObj _) = ''[object Object]''"

text \<open>
  \<^verbatim>\<open>String(v)\<close> with its exception: the value \<open>Inl\<close> is the TypeError of the
  conversion of an object that has an own property \<^verbatim>\<open>toString\<close>. Wherever it
  returns, it returns \<open>String_js B v\<close>.
\<close>

fun sequence_m :: "(error + 'a) list \<Rightarrow> error + 'a list" where
  "sequence_m [] = Inr []"
| "sequence_m (x # xs) =
     (case x of
        Inl e \<Rightarrow> Inl e
      | Inr y \<Rightarrow> (case sequence_m xs of Inl e \<Rightarrow> Inl e | Inr ys \<Rightarrow> Inr (y # ys)))"

fun String_checked :: "builtins \<Rightarrow> jsval \<Rightarrow> error + string" where
  "String_checked B (JArr xs) =
     (case sequence_m (map (\<lambda>x. if x = JUndefined \<or> x = JNull then Inr []
                                  else String_checked B x) xs) of
        Inl e \<Rightarrow> Inl e
      | Inr ss \<Rightarrow> Inr (join '','' ss))"
| "String_checked B (JObj kvs) =
     (if ''toString'' \<in> fst ` set kvs then Inl (TypeError ''No default value'')
      else Inr ''[object Object]'')"
| "String_checked B v = Inr (String_js B v)"

subsection \<open>A concrete runtime\<close>

text \<open>
  One instance of the built-ins, for running the model on concrete inputs. It follows
  ECMAScript on a fragment of the inputs and is used only there:
  \<^item> \<open>parseFloat_dec\<close> reads the longest decimal literal at the start of the string
    (leading white space, sign, \<^verbatim>\<open>Infinity\<close>, digits, fraction, exponent) and takes
    its exact value, which is the value \<^verbatim>\<open>parseFloat\<close> returns whenever that value
    is a double (every integer below \<open>2^53\<close> is);
  \<^item> \<open>dateParse_iso\<close> reads the date-only forms \<^verbatim>\<open>YYYY\<close>, \<^verbatim>\<open>YYYY-MM\<close> and
    \<^verbatim>\<open>YYYY-MM-DD\<close> of the ECMAScript date-time string format, as UTC midnight, in
    milliseconds since the epoch; every other string is \<open>None\<close> here (what engines
    do on other formats is implementation-defined);
  \<^item> \<open>numToString_dec\<close> prints an integer in decimal, as \<^verbatim>\<open>String\<close> does below
    \<open>10^21\<close>, and a fraction digit by digit.
\<close>

definition isDigit :: "char \<Rightarrow> bool" where
  "isDigit c = (48 \<le> (of_char c :: nat) \<and> (of_char c :: nat) \<le> 57)"

definition digitsVal :: "string \<Rightarrow> nat" where
  "digitsVal ds = foldl (\<lambda>acc c. 10 * acc + ((of_char c :: nat) - 48)) 0 ds"

definition scale10 :: "real \<Rightarrow> int \<Rightarrow> real" where
  "scale10 m e = (if 0 \<le> e then m * 10 ^ nat e else m / 10 ^ nat (- e))"

definition parseExponent :: "string \<Rightarrow> int" where
  "parseExponent s =
     (case s of
        [] \<Rightarrow> 0
      | c # r \<Rightarrow>
          if c = CHR ''e'' \<or> c = CHR ''E'' then
            (case r of
               [] \<Rightarrow> 0
             | d # r' \<Rightarrow>
                 if d = CHR ''-'' then - int (digitsVal (takeWhile isDigit r'))
                 else if d = CHR ''+'' then int (digitsVal (takeWhile isDigit r'))
                 else int (digitsVal (takeWhile isDigit r)))
          else 0)"

definition parseFloat_dec :: "string \<Rightarrow> jsnum" where
  "parseFloat_dec s =
     (let s0 = dropWhile isWhiteSpace s;
          neg = (s0 \<noteq> [] \<and> hd s0 = CHR ''-'');
          s1 = (if s0 \<noteq> [] \<and> (hd s0 = CHR ''-'' \<or> hd s0 = CHR ''+'') then tl s0 else s0)
      in if prefix ''Infinity'' s1 then (if neg then NegInf else PosInf)
         else
           let intDigits = takeWhile isDigit s1;
               s2 = dropWhile isDigit s1;
               hasDot = (s2 \<noteq> [] \<and> hd s2 = CHR ''.'');
               fracDigits = (if hasDot then takeWhile isDigit (tl s2) else []);
               s3 = (if hasDot then dropWhile isDigit (tl s2) else s2)
           in if intDigits = [] \<and> fracDigits = [] then NaN
              else
                let m = real (digitsVal (intDigits @ fracDigits));
                    v = scale10 m (parseExponent s3 - int (length fracDigits))
                in Fin (if neg then - v else v))"

definition daysFromCivil :: "int \<Rightarrow> int \<Rightarrow> int \<Rightarrow> int" where
  "daysFromCivil y m d =
     (let y' = (if m \<le> 2 then y - 1 else y);
          era = y' div 400;
          yoe = y' - era * 400;
          doy = (153 * (if m > 2 then m - 3 else m + 9) + 2) div 5 + d - 1;
          doe = yoe * 365 + yoe div 4 - yoe div 100 + doy
      in era * 146097 + doe - 719468)"

definition daysInMonth :: "int \<Rightarrow> int \<Rightarrow> int" where
  "daysInMonth y m =
     (if m = 2 then (if y mod 4 = 0 \<and> (y mod 100 \<noteq> 0 \<or> y mod 400 = 0) then 29 else 28)
      else if m \<in> {4, 6, 9, 11} then 30 else 31)"

definition civilMs :: "int \<Rightarrow> int \<Rightarrow> int \<Rightarrow> int option" where
  "civilMs y m d =
     (if 1 \<le> m \<and> m \<le> 12 \<and> 1 \<le> d \<and> d \<le> daysInMonth y m
      then Some (daysFromCivil y m d * 86400000) else None)"

definition dateParse_iso :: "string \<Rightarrow> int option" where
  "dateParse_iso s =
     (let yy = take 4 s; r1 = drop 4 s;
          mm = take 2 (drop 1 r1); r2 = drop 3 r1;
          dd = take 2 (drop 1 r2); r3 = drop 3 r2
      in if length yy \<noteq> 4 \<or> \<not> list_all isDigit yy then None
         else if r1 = [] then civilMs (int (digitsVal yy)) 1 1
         else if hd r1 \<noteq> CHR ''-'' \<or> length mm \<noteq> 2 \<or> \<not> list_all isDigit mm then None
         else if r2 = [] then civilMs (int (digitsVal yy)) (int (digitsVal mm)) 1
         else if hd r2 \<noteq> CHR ''-'' \<or> length dd \<noteq> 2 \<or> \<not> list_all isDigit dd \<or> r3 \<noteq> []
           then None
         else civilMs (int (digitsVal yy)) (int (digitsVal mm)) (int (digitsVal dd)))"

fun decimal :: "nat \<Rightarrow> string" where
  "decimal n = (if n < 10 then [char_of (48 + n)] else decimal (n div 10) @ [char_of (48 + n mod 10)])"

declare decimal.simps [simp del]

fun fracDigits :: "nat \<Rightarrow> real \<Rightarrow> string" where
  "fracDigits 0 r = []"
| "fracDigits (Suc k) r =
     (if r = 0 then []
      else char_of (48 + nat \<lfloor>10 * r\<rfloor>) # fracDigits k (10 * r - of_int \<lfloor>10 * r\<rfloor>))"

definition numToString_dec :: "jsnum \<Rightarrow> string" where
  "numToString_dec n =
     (case n of
        NaN \<Rightarrow> ''NaN''
      | PosInf \<Rightarrow> ''Infinity''
      | NegInf \<Rightarrow> ''-Infinity''
      | Fin r \<Rightarrow>
          (let a = \<bar>r\<bar>; ip = nat \<lfloor>a\<rfloor>; fr = a - of_int \<lfloor>a\<rfloor>
           in (if r < 0 then ''-'' else []) @ decimal ip
              @ (if fr = 0 then [] else ''.'' @ fracDigits 20 fr)))"

definition js :: builtins where
  "js = \<lparr>parseFloat = parseFloat_dec, dateParse = dateParse_iso, numToString = numToString_dec\<rparr>"

section \<open>src/sheets/filters.ts\<close>

type_synonym RowDict = "(string \<times> jsval) list"

text \<open>\<^verbatim>\<open>row[field]\<close>: rows have no prototype (\<^verbatim>\<open>Object.create(null)\<close>).\<close>

definition rowGet :: "RowDict \<Rightarrow> string \<Rightarrow> jsval" where
  "rowGet row k = (case map_of row k of None \<Rightarrow> JUndefined | Some v \<Rightarrow> v)"

definition asArray :: "jsval \<Rightarrow> jsval list" where
  "asArray input =
     (if \<not> truthy input then []
      else case input of JArr xs \<Rightarrow> xs | _ \<Rightarrow> [input])"

definition isNullish :: "jsval \<Rightarrow> bool" where
  "isNullish v = (v = JNull \<or> v = JUndefined \<or> v = JStr [])"

fun toBool :: "jsval \<Rightarrow> bool option" where
  "toBool (JBool b) = Some b"
| "toBool (JNum n) = Some (truthy (JNum n))"
| "toBool (JStr v) =
     (let s = toLowerCase (trim v)
      in if s \<in> set [''true'', ''t'', ''yes'', ''y'', ''1''] then Some True
         else if s \<in> set [''false'', ''f'', ''no'', ''n'', ''0''] then Some False
         else None)"
| "toBool _ = None"

fun toNumber :: "builtins \<Rightarrow> jsval \<Rightarrow> jsnum option" where
  "toNumber B (JNum n) = Some n"
| "toNumber B (JStr v) =
     (let num = parseFloat B (trim v) in if num = NaN then None else Some num)"
| "toNumber B _ = None"

fun toDateTime :: "builtins \<Rightarrow> jsval \<Rightarrow> int option" where
  "toDateTime B (JStr v) = dateParse B v"
| "toDateTime B _ = None"

text \<open>
  The coerced pair. \<open>SDate t\<close> is a \<^verbatim>\<open>Date\<close> object made by \<open>toDateTime\<close>, with
  time value \<open>t\<close>; the two dates of a pair are two objects.
\<close>

datatype scalar = SNull | SDate int | SNum jsnum | SBool bool | SStr string

datatype kind = KNull | KDatetime | KNumber | KBool | KString

definition coercePair :: "builtins \<Rightarrow> jsval \<Rightarrow> jsval \<Rightarrow> scalar \<times> scalar \<times> kind" where
  "coercePair B lhs rhs =
     (if isNullish lhs \<and> isNullish rhs then (SNull, SNull, KNull)
      else case (toDateTime B lhs, toDateTime B rhs) of
        (Some ldt, Some rdt) \<Rightarrow> (SDate ldt, SDate rdt, KDatetime)
      | _ \<Rightarrow>
      (case (toNumber B lhs, toNumber B rhs) of
        (Some lnum, Some rnum) \<Rightarrow> (SNum lnum, SNum rnum, KNumber)
      | _ \<Rightarrow>
      (case (toBool lhs, toBool rhs) of
        (Some lb, Some rb) \<Rightarrow> (SBool lb, SBool rb, KBool)
      | _ \<Rightarrow>
        (SStr (if lhs = JNull then [] else String_js B lhs),
         SStr (if rhs = JNull then [] else String_js B rhs),
         KString))))"

text \<open>
  \<^verbatim>\<open>a === b\<close>, \<^verbatim>\<open>a < b\<close> and \<^verbatim>\<open>a <= b\<close> on coerced scalars. Two dates are
  two objects, never identical; the relational operators read their time values, and
  read a boolean as 0 or 1. \<open>coercePair\<close> returns two scalars of one kind; the
  operators are written out for these pairs.
\<close>

fun strictEq :: "scalar \<Rightarrow> scalar \<Rightarrow> bool" where
  "strictEq SNull SNull = True"
| "strictEq (SDate _) (SDate _) = False"
| "strictEq (SNum a) (SNum b) = num_eq a b"
| "strictEq (SBool a) (SBool b) = (a = b)"
| "strictEq (SStr a) (SStr b) = (a = b)"
| "strictEq _ _ = False"

fun js_lt :: "scalar \<Rightarrow> scalar \<Rightarrow> bool" where
  "js_lt (SDate a) (SDate b) = (a < b)"
| "js_lt (SNum a) (SNum b) = num_lt a b"
| "js_lt (SBool a) (SBool b) = (\<not> a \<and> b)"
| "js_lt (SStr a) (SStr b) = str_lt a b"
| "js_lt _ _ = False"

fun js_le :: "scalar \<Rightarrow> scalar \<Rightarrow> bool" where
  "js_le (SDate a) (SDate b) = (a \<le> b)"
| "js_le (SNum a) (SNum b) = num_le a b"
| "js_le (SBool a) (SBool b) = (a \<longrightarrow> b)"
| "js_le (SStr a) (SStr b) = (\<not> str_lt b a)"
| "js_le _ _ = False"

definition compare :: "builtins \<Rightarrow> jsval \<Rightarrow> jsval \<Rightarrow> string \<Rightarrow> bool" where
  "compare B lhs rhs op =
     (case coercePair B lhs rhs of (a, b, kind) \<Rightarrow>
        if a = SNull \<or> b = SNull then
          (if op = ''eq'' \<or> op = ''ne''
           then (if op = ''eq'' then strictEq a b else \<not> strictEq a b)
           else False)
        else if op = ''eq'' then strictEq a b
        else if op = ''ne'' then \<not> strictEq a b
        else if op = ''gt'' then kind \<noteq> KBool \<and> js_lt b a
        else if op = ''gte'' then kind \<noteq> KBool \<and> js_le b a
        else if op = ''lt'' then kind \<noteq> KBool \<and> js_lt a b
        else if op = ''lte'' then kind \<noteq> KBool \<and> js_le a b
        else False)"

definition like :: "builtins \<Rightarrow> jsval \<Rightarrow> jsval \<Rightarrow> bool" where
  "like B cell pattern =
     (if isNullish cell \<or> isNullish pattern then False
      else includes_js (toLowerCase (String_js B cell)) (toLowerCase (String_js B pattern)))"

definition between :: "builtins \<Rightarrow> jsval \<Rightarrow> jsval \<Rightarrow> jsval \<Rightarrow> bool" where
  "between B cell low high =
     (case coercePair B cell low of (a1, b1, k1) \<Rightarrow>
      case coercePair B cell high of (a2, b2, k2) \<Rightarrow>
        if a1 = SNull \<or> b1 = SNull \<or> a2 = SNull \<or> b2 = SNull \<or> k1 \<noteq> k2 then False
        else js_le b1 a1 \<and> js_le a2 b2)"

text \<open>
  \<^verbatim>\<open>options.some(...)\<close>: only an array has the method \<^verbatim>\<open>some\<close>; on any other
  value the call is a TypeError.
\<close>

definition inList :: "builtins \<Rightarrow> jsval \<Rightarrow> jsval \<Rightarrow> error + bool" where
  "inList B cell options =
     (case options of
        JArr opts \<Rightarrow> Inr (list_ex (\<lambda>opt. compare B cell opt ''eq'') opts)
      | _ \<Rightarrow> Inl (TypeError ''options.some is not a function''))"

definition matchCondition :: "builtins \<Rightarrow> RowDict \<Rightarrow> jsval \<Rightarrow> error + bool" where
  "matchCondition B row condition =
     (if \<not> truthy condition \<or> \<not> typeofObject condition then Inr False
      else
        let field = getProp condition ''field'';
            operator = (case getProp condition ''operator'' of
                          JUndefined \<Rightarrow> JStr ''eq'' | v \<Rightarrow> v);
            value = getProp condition ''value'';
            values = getProp condition ''values''
        in if \<not> truthy field then Inr False
           else
             let cell = rowGet row (String_js B field);
                 op = toLowerCase (String_js B operator)
             in if op = ''is_null'' then Inr (isNullish cell)
                else if op = ''is_not_null'' then Inr (\<not> isNullish cell)
                else if op = ''like'' then Inr (like B cell value)
                else if op = ''between'' then
                  (let pair = (if truthy values then values else value)
                   in case pair of
                        JArr (lo # hi # _) \<Rightarrow> Inr (between B cell lo hi)
                      | _ \<Rightarrow> Inr False)
                else if op = ''in'' \<or> op = ''not_in'' then
                  (let opts = (if truthy values then values
                               else if isArray value then value else JArr [value])
                   in case inList B cell opts of
                        Inl e \<Rightarrow> Inl e
                      | Inr inResult \<Rightarrow> Inr (if op = ''in'' then inResult else \<not> inResult))
                else Inr (compare B cell value op))"

text \<open>
  \<^verbatim>\<open>Array.prototype.every\<close> and \<^verbatim>\<open>some\<close> with a callback that may throw: they
  stop at the first element that decides, and an exception of the callback leaves the
  loop.
\<close>

fun every :: "('a \<Rightarrow> error + bool) \<Rightarrow> 'a list \<Rightarrow> error + bool" where
  "every f [] = Inr True"
| "every f (x # xs) =
     (case f x of Inl e \<Rightarrow> Inl e | Inr b \<Rightarrow> if b then every f xs else Inr False)"

fun some :: "('a \<Rightarrow> error + bool) \<Rightarrow> 'a list \<Rightarrow> error + bool" where
  "some f [] = Inr False"
| "some f (x # xs) =
     (case f x of Inl e \<Rightarrow> Inl e | Inr b \<Rightarrow> if b then Inr True else some f xs)"

text \<open>\<^verbatim>\<open>payload?.where || payload\<close>\<close>

definition whereOf :: "jsval \<Rightarrow> jsval" where
  "whereOf payload =
     (if truthy (getProp payload ''where'') then getProp payload ''where'' else payload)"

definition andConds :: "jsval \<Rightarrow> jsval list" where
  "andConds wh = asArray (getProp wh ''and'')"

definition orConds :: "jsval \<Rightarrow> jsval list" where
  "orConds wh = asArray (getProp wh ''or'')"

text \<open>\<open>buildPredicate B payload\<close> is the compiled predicate, a function of the row.\<close>

definition buildPredicate :: "builtins \<Rightarrow> jsval \<Rightarrow> RowDict \<Rightarrow> error + bool" where
  "buildPredicate B payload =
     (let wh = whereOf payload
      in if \<not> truthy wh \<or> \<not> typeofObject wh then (\<lambda>row. Inr True)
         else
           (\<lambda>row.
              case (if length (andConds wh) > 0
                    then every (matchCondition B row) (andConds wh) else Inr True) of
                Inl e \<Rightarrow> Inl e
              | Inr andOk \<Rightarrow>
              (case (if length (orConds wh) > 0
                     then some (matchCondition B row) (orConds wh)
                     else Inr (length (orConds wh) = 0)) of
                Inl e \<Rightarrow> Inl e
              | Inr orOk \<Rightarrow>
                  if length (andConds wh) > 0 \<and> length (orConds wh) > 0
                  then Inr (andOk \<or> orOk)
                  else Inr (if length (andConds wh) > 0 then andOk else orOk))))"

fun filter_m :: "('a \<Rightarrow> error + bool) \<Rightarrow> 'a list \<Rightarrow> error + 'a list" where
  "filter_m p [] = Inr []"
| "filter_m p (x # xs) =
     (case p x of
        Inl e \<Rightarrow> Inl e
      | Inr b \<Rightarrow>
          (case filter_m p xs of
             Inl e \<Rightarrow> Inl e
           | Inr ys \<Rightarrow> Inr (if b then x # ys else ys)))"

definition applyFilters :: "builtins \<Rightarrow> RowDict list \<Rightarrow> jsval \<Rightarrow> error + RowDict list" where
  "applyFilters B rows wh =
     (if \<not> truthy wh then Inr rows else filter_m (buildPredicate B wh) rows)"

section \<open>src/sheets/service.ts\<close>

type_synonym grid = "jsval list list"
type_synonym CacheKey = string

record CacheEntry =
  timestamp :: int
  data :: grid

text \<open>
  \<^verbatim>\<open>CACHE_TTL\<close> and \<^verbatim>\<open>CACHE_MAX_ENTRIES\<close> are read from the environment
  (\<^verbatim>\<open>parseInt(...) || default\<close>): any integer but 0.
\<close>

record config =
  CACHE_TTL :: int
  CACHE_MAX_ENTRIES :: int

subsection \<open>The read cache\<close>

text \<open>
  \<^verbatim>\<open>readCache\<close> is a \<^verbatim>\<open>Map\<close>, which iterates in insertion order: an association
  list with distinct keys, oldest first. \<^verbatim>\<open>Map.set\<close> is \<open>AList.update\<close> (a new key
  goes to the end, a present key keeps its place), \<^verbatim>\<open>Map.delete\<close> is
  \<open>AList.delete\<close>.
\<close>

type_synonym cache = "(CacheKey \<times> CacheEntry) list"

definition pruneExpired :: "config \<Rightarrow> int \<Rightarrow> cache \<Rightarrow> cache" where
  "pruneExpired cfg now c = filter (\<lambda>(key, entry). \<not> (now - timestamp entry > CACHE_TTL cfg)) c"

function evictOldest :: "config \<Rightarrow> cache \<Rightarrow> cache" where
  "evictOldest cfg c =
     (if int (length c) > CACHE_MAX_ENTRIES cfg then
        (case c of
           [] \<Rightarrow> c
         | (oldestKey, _) # _ \<Rightarrow>
             if oldestKey = [] then c else evictOldest cfg (AList.delete oldestKey c))
      else c)"
  by pat_completeness auto
termination
  by (relation "measure (\<lambda>(cfg, c). length c)") (auto simp: less_Suc_eq_le length_delete_le)

declare evictOldest.simps [simp del]

definition pruneCache :: "config \<Rightarrow> int \<Rightarrow> cache \<Rightarrow> cache" where
  "pruneCache cfg now c = evictOldest cfg (pruneExpired cfg now c)"

subsection \<open>\<^verbatim>\<open>readValues\<close> and the promises it leaves behind\<close>

text \<open>
  JavaScript runs one task at a time, so the synchronous part of \<^verbatim>\<open>readValues\<close>
  is one step on the state of the service, and so is each promise reaction. A promise is
  a number. \<open>pendingFetches\<close> holds, for each \<^verbatim>\<open>fetchPromise\<close> whose
  \<^verbatim>\<open>finally\<close> reaction has not run yet, the variables its callbacks have captured
  and whether \<^verbatim>\<open>fetchSheetValues\<close> has settled; \<open>fetchCalls\<close> logs the calls of
  \<^verbatim>\<open>fetchSheetValues\<close> (spreadsheet and normalised range), each of which sends at
  most one request to the backend.
\<close>

record fetchClosure =
  fc_cacheKey :: CacheKey
  fc_useCache :: bool
  fc_now :: int
  fc_settled :: bool

record service =
  readCache :: cache
  inflightReads :: "CacheKey \<rightharpoonup> nat"
  pendingFetches :: "nat \<rightharpoonup> fetchClosure"
  fetchCalls :: "(string \<times> string) list"
  nextPromise :: nat

definition initial :: service where
  "initial = \<lparr>readCache = [], inflightReads = Map.empty, pendingFetches = Map.empty,
               fetchCalls = [], nextPromise = 0\<rparr>"

text \<open>
  What a call of \<^verbatim>\<open>readValues\<close> gives its caller: an exception (a rejected promise),
  a value, or the outcome of the promise with the given number.
\<close>

datatype readOutcome = Throws error | Returns grid | Awaits nat

definition normalizedRange :: "string \<Rightarrow> string" where
  "normalizedRange r = (if CHR ''!'' \<in> set r then r else r @ ''!A:ZZZ'')"

text \<open>Lines 153 to 171: the fetch is started and, with \<^verbatim>\<open>useCache\<close>, registered.\<close>

definition startFetch ::
  "service \<Rightarrow> string \<Rightarrow> string \<Rightarrow> CacheKey \<Rightarrow> bool \<Rightarrow> int \<Rightarrow> readOutcome \<times> service" where
  "startFetch st spreadsheetId trimmedRange cacheKey useCache now =
     (let fetchPromise = nextPromise st
      in (Awaits fetchPromise,
          st\<lparr>fetchCalls := fetchCalls st @ [(spreadsheetId, normalizedRange trimmedRange)],
             pendingFetches := (pendingFetches st)(fetchPromise \<mapsto>
               \<lparr>fc_cacheKey = cacheKey, fc_useCache = useCache, fc_now = now,
                fc_settled = False\<rparr>),
             inflightReads := (if useCache then (inflightReads st)(cacheKey \<mapsto> fetchPromise)
                               else inflightReads st),
             nextPromise := Suc fetchPromise\<rparr>))"

text \<open>Lines 146 to 151, after the cache had no valid entry.\<close>

definition afterCacheMiss ::
  "service \<Rightarrow> string \<Rightarrow> string \<Rightarrow> CacheKey \<Rightarrow> bool \<Rightarrow> int \<Rightarrow> readOutcome \<times> service" where
  "afterCacheMiss st spreadsheetId trimmedRange cacheKey useCache now =
     (if \<not> useCache then
        startFetch (st\<lparr>readCache := AList.delete cacheKey (readCache st)\<rparr>)
          spreadsheetId trimmedRange cacheKey useCache now
      else case inflightReads st cacheKey of
        Some pending \<Rightarrow> (Awaits pending, st)
      | None \<Rightarrow> startFetch st spreadsheetId trimmedRange cacheKey useCache now)"

text \<open>\<open>rng\<close> is the argument \<^verbatim>\<open>range\<close>, \<open>None\<close> when it is undefined.\<close>

definition readValues ::
  "config \<Rightarrow> service \<Rightarrow> string \<Rightarrow> string option \<Rightarrow> bool \<Rightarrow> int \<Rightarrow> readOutcome \<times> service" where
  "readValues cfg st spreadsheetId rng useCache now =
     (case rng of
        None \<Rightarrow> (Throws (Error ''Range must be a non-empty string''), st)
      | Some r \<Rightarrow>
          let trimmedRange = trim r
          in if trimmedRange = [] then (Throws (Error ''Range must be a non-empty string''), st)
          else
            let cacheKey = spreadsheetId @ '':'' @ trimmedRange
            in case (if useCache then map_of (readCache st) cacheKey else None) of
                 Some entry \<Rightarrow>
                   if now - timestamp entry \<le> CACHE_TTL cfg then
                     (Returns (data entry),
                      st\<lparr>readCache :=
                           AList.update cacheKey entry (AList.delete cacheKey (readCache st))\<rparr>)
                   else
                     afterCacheMiss (st\<lparr>readCache := AList.delete cacheKey (readCache st)\<rparr>)
                       spreadsheetId trimmedRange cacheKey useCache now
               | None \<Rightarrow> afterCacheMiss st spreadsheetId trimmedRange cacheKey useCache now)"

text \<open>The \<^verbatim>\<open>then\<close> callback (lines 156 to 162) and the \<^verbatim>\<open>finally\<close> callback (166 to 168).\<close>

definition thenCallback :: "config \<Rightarrow> fetchClosure \<Rightarrow> grid \<Rightarrow> service \<Rightarrow> service" where
  "thenCallback cfg fc vals st =
     (if fc_useCache fc then
        st\<lparr>readCache :=
             AList.update (fc_cacheKey fc) \<lparr>timestamp = fc_now fc, data = vals\<rparr>
               (pruneCache cfg (fc_now fc) (readCache st))\<rparr>
      else st)"

definition finallyCallback :: "fetchClosure \<Rightarrow> service \<Rightarrow> service" where
  "finallyCallback fc st = st\<lparr>inflightReads := (inflightReads st)(fc_cacheKey fc := None)\<rparr>"

text \<open>
  The events of a run: a call of \<^verbatim>\<open>readValues\<close>; \<^verbatim>\<open>fetchSheetValues\<close>
  fulfilling or rejecting the promise behind \<^verbatim>\<open>fetchPromise\<close>, which runs the
  \<^verbatim>\<open>then\<close> callback or skips it; and the \<^verbatim>\<open>finally\<close> reaction of a settled
  \<^verbatim>\<open>fetchPromise\<close> (registered only with \<^verbatim>\<open>useCache\<close>), after which the promise
  is no longer pending.
\<close>

datatype event =
    Call string "string option" bool int
  | Resolve nat grid
  | Reject nat error
  | Finally nat

definition step :: "config \<Rightarrow> event \<Rightarrow> service \<Rightarrow> service" where
  "step cfg ev st =
     (case ev of
        Call spreadsheetId rng useCache now \<Rightarrow>
          snd (readValues cfg st spreadsheetId rng useCache now)
      | Resolve p vals \<Rightarrow>
          (case pendingFetches st p of
             None \<Rightarrow> st
           | Some fc \<Rightarrow>
               if fc_settled fc then st
               else (thenCallback cfg fc vals st)
                      \<lparr>pendingFetches := (pendingFetches st)(p \<mapsto> fc\<lparr>fc_settled := True\<rparr>)\<rparr>)
      | Reject p e \<Rightarrow>
          (case pendingFetches st p of
             None \<Rightarrow> st
           | Some fc \<Rightarrow>
               if fc_settled fc then st
               else st\<lparr>pendingFetches := (pendingFetches st)(p \<mapsto> fc\<lparr>fc_settled := True\<rparr>)\<rparr>)
      | Finally p \<Rightarrow>
          (case pendingFetches st p of
             None \<Rightarrow> st
           | Some fc \<Rightarrow>
               if \<not> fc_settled fc then st
               else (if fc_useCache fc then finallyCallback fc st else st)
                      \<lparr>pendingFetches := (pendingFetches st)(p := None)\<rparr>))"

fun run :: "config \<Rightarrow> event list \<Rightarrow> service \<Rightarrow> service" where
  "run cfg [] st = st"
| "run cfg (ev # evs) st = run cfg evs (step cfg ev st)"

subsection \<open>\<^verbatim>\<open>normalizeRows\<close>, \<^verbatim>\<open>applyUnique\<close>\<close>

text \<open>\<^verbatim>\<open>headers[i] ?? `col_${i}`\<close>, as a property key.\<close>

definition headerKey :: "builtins \<Rightarrow> jsval list \<Rightarrow> nat \<Rightarrow> string" where
  "headerKey B headers i =
     (if headers ! i = JUndefined \<or> headers ! i = JNull then ''col_'' @ decimal i
      else String_js B (headers ! i))"

definition normalizeRow :: "builtins \<Rightarrow> jsval list \<Rightarrow> jsval list \<Rightarrow> RowDict" where
  "normalizeRow B headers row =
     foldl (\<lambda>normalized i.
              AList.update (headerKey B headers i)
                (if i < length row then row ! i else JStr []) normalized)
       [] [0..<length headers]"

definition normalizeRows :: "builtins \<Rightarrow> jsval list \<Rightarrow> grid \<Rightarrow> RowDict list" where
  "normalizeRows B headers rawRows =
     (if length rawRows = 0 \<or> length headers = 0 then []
      else map (normalizeRow B headers) rawRows)"

definition compoundKey :: "builtins \<Rightarrow> jsval list \<Rightarrow> RowDict \<Rightarrow> string" where
  "compoundKey B keys row =
     join ''|'' (map (\<lambda>k. String_js B
                            (let v = rowGet row (String_js B k)
                             in if v = JNull \<or> v = JUndefined then JStr [] else v)) keys)"

fun uniqueLoop ::
  "(RowDict \<Rightarrow> string) \<Rightarrow> RowDict list \<Rightarrow> string set \<Rightarrow> RowDict list \<Rightarrow> RowDict list" where
  "uniqueLoop ck [] seen result = result"
| "uniqueLoop ck (row # rows) seen result =
     (if ck row \<notin> seen then uniqueLoop ck rows (insert (ck row) seen) (result @ [row])
      else uniqueLoop ck rows seen result)"

definition applyUnique :: "builtins \<Rightarrow> RowDict list \<Rightarrow> jsval \<Rightarrow> RowDict list" where
  "applyUnique B rows uniqueBy =
     (if \<not> truthy uniqueBy then rows
      else uniqueLoop (compoundKey B (case uniqueBy of JArr ks \<Rightarrow> ks | _ \<Rightarrow> [uniqueBy]))
             rows {} [])"

subsection \<open>\<^verbatim>\<open>updateRows\<close>\<close>

function colLoop :: "int \<Rightarrow> string \<Rightarrow> string" where
  "colLoop n result =
     (if n > 0 then colLoop ((n - 1) div 26) (char_of (65 + nat ((n - 1) mod 26)) # result)
      else result)"
  by pat_completeness auto
termination
  by (relation "measure (\<lambda>(n, result). nat n)") auto

declare colLoop.simps [simp del]

definition colIdxToA1 :: "int \<Rightarrow> string" where
  "colIdxToA1 n = colLoop (n + 1) []"

record updateRequest =
  req_range :: string
  req_values :: grid

record updateResult =
  updated :: nat
  appended :: nat

text \<open>The indices of the rows the predicate accepts; an exception of the predicate ends the call.\<close>

definition matchingIndices ::
  "(RowDict \<Rightarrow> error + bool) \<Rightarrow> RowDict list \<Rightarrow> error + nat list" where
  "matchingIndices predicate rows =
     (case filter_m (\<lambda>(row, index). predicate row) (zip rows [0..<length rows]) of
        Inl e \<Rightarrow> Inl e
      | Inr matching \<Rightarrow> Inr (map snd matching))"

text \<open>\<^verbatim>\<open>headers.indexOf(key)\<close>, \<open>None\<close> for \<open>-1\<close>: strict equality with a string.\<close>

fun indexOf :: "jsval list \<Rightarrow> string \<Rightarrow> nat option" where
  "indexOf [] key = None"
| "indexOf (h # hs) key = (if h = JStr key then Some 0 else map_option Suc (indexOf hs key))"

text \<open>Lines 375 to 379: the row as it is, in header order.\<close>

definition existingValues :: "builtins \<Rightarrow> jsval list \<Rightarrow> RowDict \<Rightarrow> jsval list" where
  "existingValues B headers existingRow =
     map (\<lambda>h. if rowGet existingRow (String_js B h) \<noteq> JUndefined
                  \<and> rowGet existingRow (String_js B h) \<noteq> JNull
               then rowGet existingRow (String_js B h) else JStr []) headers"

text \<open>Lines 383 to 391: one entry of the patch; the state is \<open>(updatedRow, hasChanges)\<close>.\<close>

definition applyEntry ::
  "builtins \<Rightarrow> jsval list \<Rightarrow> jsval list \<times> bool \<Rightarrow> string \<times> jsval \<Rightarrow> jsval list \<times> bool" where
  "applyEntry B headers acc entry =
     (case acc of (updatedRow, hasChanges) \<Rightarrow>
      case entry of (key, val) \<Rightarrow>
        (case indexOf headers key of
           None \<Rightarrow> (updatedRow, hasChanges)
         | Some headerIndex \<Rightarrow>
             if String_js B (updatedRow ! headerIndex) \<noteq> String_js B val
             then (updatedRow[headerIndex := val], True)
             else (updatedRow, hasChanges)))"

definition patchRow ::
  "builtins \<Rightarrow> jsval list \<Rightarrow> RowDict \<Rightarrow> (string \<times> jsval) list \<Rightarrow> jsval list \<times> bool" where
  "patchRow B headers existingRow patch =
     foldl (applyEntry B headers) (existingValues B headers existingRow, False) patch"

definition rowRange :: "string \<Rightarrow> jsval list \<Rightarrow> nat \<Rightarrow> string" where
  "rowRange sheetName headers rowIndex =
     sheetName @ ''!A'' @ decimal (rowIndex + 2) @ '':''
       @ colIdxToA1 (int (length headers) - 1) @ decimal (rowIndex + 2)"

text \<open>The body of the loop over \<^verbatim>\<open>targetIndices\<close>: the request pushed for a row, if any.\<close>

definition rowRequest ::
  "builtins \<Rightarrow> string \<Rightarrow> jsval list \<Rightarrow> RowDict list \<Rightarrow> (string \<times> jsval) list \<Rightarrow> nat
     \<Rightarrow> updateRequest option" where
  "rowRequest B sheetName headers rows patch rowIndex =
     (if \<not> rowIndex < length rows then None
      else case patchRow B headers (rows ! rowIndex) patch of (updatedRow, hasChanges) \<Rightarrow>
        if hasChanges
        then Some \<lparr>req_range = rowRange sheetName headers rowIndex, req_values = [updatedRow]\<rparr>
        else None)"

text \<open>
  \<open>updateRows\<close> from the point where \<^verbatim>\<open>readValues(spreadsheetId, sheetName, false)\<close>
  has settled with \<open>readResult\<close>. \<open>patch\<close> is \<^verbatim>\<open>Object.entries(data)\<close>, and
  \<open>batchUpdate\<close> is the backend's answer to a batch (\<open>None\<close>: written). The result is
  the batch sent to the backend (\<open>[]\<close>: nothing was sent) and what the call gives its
  caller.
\<close>

definition updateRows ::
  "builtins \<Rightarrow> string \<Rightarrow> error + grid \<Rightarrow> jsval \<Rightarrow> (string \<times> jsval) list \<Rightarrow> bool
     \<Rightarrow> (updateRequest list \<Rightarrow> error option) \<Rightarrow> updateRequest list \<times> (error + updateResult)" where
  "updateRows B sheetName readResult wh patch updateAll batchUpdate =
     (case readResult of
        Inl e \<Rightarrow> ([], Inl e)
      | Inr vals \<Rightarrow>
          if length vals = 0 then ([], Inl (Error ''Sheet appears empty or unreadable''))
          else
            let headers = hd vals;
                rows = normalizeRows B headers (tl vals);
                predicate = (if truthy wh then buildPredicate B wh else (\<lambda>row. Inr True))
            in case matchingIndices predicate rows of
                 Inl e \<Rightarrow> ([], Inl e)
               | Inr matching \<Rightarrow>
                   if length matching > 0 then
                     (let targetIndices = (if updateAll then matching else take 1 matching);
                          batchRequests =
                            List.map_filter (rowRequest B sheetName headers rows patch)
                              targetIndices
                      in if length batchRequests > 0 then
                           (case batchUpdate batchRequests of
                              Some e \<Rightarrow> (batchRequests, Inl e)
                            | None \<Rightarrow>
                                (batchRequests,
                                 Inr \<lparr>updated = length batchRequests, appended = 0\<rparr>))
                         else ([], Inr \<lparr>updated = 0, appended = 0\<rparr>))
                   else ([], Inr \<lparr>updated = 0, appended = 0\<rparr>))"

subsection \<open>Notions for the properties of the in-flight registry\<close>

text \<open>
  What ties the registry to the promises: every registered promise is pending, with the
  key it is registered under and with \<^verbatim>\<open>useCache\<close>; every pending promise of a
  cached read is registered under its key; promise numbers are not reused.
\<close>

definition inflightInv :: "service \<Rightarrow> bool" where
  "inflightInv st \<longleftrightarrow>
     (\<forall>k p. inflightReads st k = Some p \<longrightarrow>
        (\<exists>fc. pendingFetches st p = Some fc \<and> fc_cacheKey fc = k \<and> fc_useCache fc))
     \<and> (\<forall>p fc. pendingFetches st p = Some fc \<and> fc_useCache fc \<longrightarrow>
        inflightReads st (fc_cacheKey fc) = Some p)
     \<and> (\<forall>p fc. pendingFetches st p = Some fc \<longrightarrow> p < nextPromise st)"

text \<open>The events that settle the fetch behind promise \<open>p\<close>.\<close>

fun settles :: "nat \<Rightarrow> event \<Rightarrow> bool" where
  "settles p (Resolve q _) = (q = p)"
| "settles p (Reject q _) = (q = p)"
| "settles p _ = False"

text \<open>
  Promise \<open>p\<close> is the one registered for key \<open>k\<close>, and its fetch has settled or not,
  as \<open>s\<close> says.
\<close>

definition tracked :: "service \<Rightarrow> CacheKey \<Rightarrow> nat \<Rightarrow> bool \<Rightarrow> bool" where
  "tracked st k p s \<longleftrightarrow>
     inflightReads st k = Some p
     \<and> (\<exists>fc. pendingFetches st p = Some fc \<and> fc_cacheKey fc = k \<and> fc_useCache fc
            \<and> fc_settled fc = s)"

section \<open>Properties\<close>

lemmas js_eval = js_def parseFloat_dec_def dateParse_iso_def numToString_dec_def decimal.simps
  trim_def isWhiteSpace_def isDigit_def digitsVal_def scale10_def parseExponent_def civilMs_def
  daysInMonth_def daysFromCivil_def toLowerCase_def lowerChar_def

lemmas filters_eval = matchCondition_def buildPredicate_def whereOf_def andConds_def
  orConds_def asArray_def rowGet_def compare_def coercePair_def isNullish_def like_def
  between_def inList_def num_eq_def num_le_def num_gt_def Let_def

subsection \<open>Conversion to a string\<close>

lemma sequence_m_map:
  "sequence_m (map f xs) = Inr ys \<Longrightarrow> (\<And>x y. x \<in> set xs \<Longrightarrow> f x = Inr y \<Longrightarrow> y = g x)
     \<Longrightarrow> ys = map g xs"
proof (induction xs arbitrary: ys)
  case Nil
  then show ?case by simp
next
  case (Cons x xs)
  from Cons.prems(1) obtain y where y: "f x = Inr y" by (cases "f x") auto
  with Cons.prems(1) obtain zs where zs: "sequence_m (map f xs) = Inr zs"
    by (cases "sequence_m (map f xs)") auto
  from y zs Cons.prems(1) have ys: "ys = y # zs" by simp
  from Cons.prems(2) [of x y] y have "y = g x" by simp
  moreover from Cons.IH [OF zs] Cons.prems(2) have "zs = map g xs" by simp
  ultimately show ?case using ys by simp
qed

lemma String_checked_returns:
  "String_checked B v = Inr s \<Longrightarrow> String_js B v = s"
proof (induction B v arbitrary: s rule: String_checked.induct)
  case (1 B xs)
  let ?f = "\<lambda>x. if x = JUndefined \<or> x = JNull then Inr [] else String_checked B x"
  let ?g = "\<lambda>x. if x = JUndefined \<or> x = JNull then [] else String_js B x"
  from "1.prems" obtain ss where ss: "sequence_m (map ?f xs) = Inr ss" and s: "s = join '','' ss"
    by (cases "sequence_m (map ?f xs)") auto
  have "ss = map ?g xs"
  proof (rule sequence_m_map [OF ss])
    fix x y
    assume x: "x \<in> set xs" and fx: "?f x = Inr y"
    show "y = ?g x"
    proof (cases "x = JUndefined \<or> x = JNull")
      case True
      with fx show ?thesis by auto
    next
      case False
      with fx have "String_checked B x = Inr y" by simp
      from "1.IH" [OF x False this] False show ?thesis by simp
    qed
  qed
  with s show ?case by simp
qed (auto split: if_splits)

lemma String_checked_scalar:
  "String_checked B JUndefined = Inr (String_js B JUndefined)"
  "String_checked B JNull = Inr (String_js B JNull)"
  "String_checked B (JBool b) = Inr (String_js B (JBool b))"
  "String_checked B (JNum n) = Inr (String_js B (JNum n))"
  "String_checked B (JStr t) = Inr (String_js B (JStr t))"
  by simp_all

lemma String_checked_own_toString:
  "String_checked B (JObj [(''toString'', v)]) = Inl (TypeError ''No default value'')"
  "String_checked B (JArr [JStr ''a'', JObj [(''toString'', v)]])
     = Inl (TypeError ''No default value'')"
  by simp_all

subsection \<open>The predicate compiler\<close>

text \<open>
  C1. A where-tree that is one bare condition should accept exactly the rows that satisfy
  the condition. \<open>buildPredicate\<close> reads only the \<^verbatim>\<open>and\<close> and \<^verbatim>\<open>or\<close>
  groups of the tree, never its own \<^verbatim>\<open>field\<close>, \<^verbatim>\<open>operator\<close> and
  \<^verbatim>\<open>value\<close>: a tree with neither group compiles to the predicate that accepts
  every row.
\<close>

theorem bare_condition_accepts_every_row:
  assumes "\<not> truthy (getProp p ''where'')" "\<not> truthy (getProp p ''and'')"
    "\<not> truthy (getProp p ''or'')"
  shows "buildPredicate B p row = Inr True"
  using assms by (simp add: buildPredicate_def whereOf_def andConds_def orConds_def asArray_def)

text \<open>
  The tree \<^verbatim>\<open>{field: "age", operator: "eq", value: 18}\<close> accepts the row
  \<^verbatim>\<open>{age: 16}\<close>, which the condition itself rejects.
\<close>

theorem bare_condition_accepts_every_row_witness:
  "buildPredicate js
     (JObj [(''field'', JStr ''age''), (''operator'', JStr ''eq''), (''value'', JNum (Fin 18))])
     [(''age'', JNum (Fin 16))] = Inr True
   \<and> matchCondition js [(''age'', JNum (Fin 16))]
     (JObj [(''field'', JStr ''age''), (''operator'', JStr ''eq''), (''value'', JNum (Fin 18))])
     = Inr False"
  using bare_condition_accepts_every_row
    [of "JObj [(''field'', JStr ''age''), (''operator'', JStr ''eq''),
               (''value'', JNum (Fin 18))]" js "[(''age'', JNum (Fin 16))]"]
  by (simp add: matchCondition_def rowGet_def compare_def coercePair_def isNullish_def
      num_eq_def js_eval)

lemma every_total:
  "\<forall>x\<in>set xs. \<not> isl (f x) \<Longrightarrow> every f xs = Inr (\<forall>x\<in>set xs. f x = Inr True)"
proof (induction xs)
  case Nil
  then show ?case by simp
next
  case (Cons x xs)
  then obtain b where b: "f x = Inr b" by (cases "f x") auto
  with Cons show ?case by (cases b) auto
qed

lemma some_total:
  "\<forall>x\<in>set xs. \<not> isl (f x) \<Longrightarrow> some f xs = Inr (\<exists>x\<in>set xs. f x = Inr True)"
proof (induction xs)
  case Nil
  then show ?case by simp
next
  case (Cons x xs)
  then obtain b where b: "f x = Inr b" by (cases "f x") auto
  with Cons show ?case by (cases b) auto
qed

lemma asArray_not_object:
  "\<not> truthy w \<or> \<not> typeofObject w \<Longrightarrow> asArray (getProp w k) = []"
  by (cases w) (auto simp: asArray_def)

lemma every_Inr: "every f xs = Inr b \<Longrightarrow> b = (\<forall>x\<in>set xs. f x = Inr True)"
proof (induction xs)
  case Nil
  then show ?case by simp
next
  case (Cons x xs)
  then obtain bx where bx: "f x = Inr bx" by (cases "f x") auto
  with Cons show ?case by (cases bx) auto
qed

lemma some_Inr: "some f xs = Inr b \<Longrightarrow> b = (\<exists>x\<in>set xs. f x = Inr True)"
proof (induction xs)
  case Nil
  then show ?case by simp
next
  case (Cons x xs)
  then obtain bx where bx: "f x = Inr bx" by (cases "f x") auto
  with Cons show ?case by (cases bx) auto
qed

text \<open>
  The combination rule, on the groups as the compiler resolves them: whatever the predicate
  returns is, with both groups non-empty, (every and-condition matches) or (some
  or-condition matches); with one group non-empty, what that group says; with none, true.
  And it does return when no condition of the two groups raises on the row.
\<close>

lemma buildPredicate_resolved_groups:
  "(\<forall>b. buildPredicate B p row = Inr b \<longrightarrow>
      b = (if andConds (whereOf p) \<noteq> [] \<and> orConds (whereOf p) \<noteq> []
           then (\<forall>c\<in>set (andConds (whereOf p)). matchCondition B row c = Inr True)
              \<or> (\<exists>c\<in>set (orConds (whereOf p)). matchCondition B row c = Inr True)
           else if andConds (whereOf p) \<noteq> []
           then (\<forall>c\<in>set (andConds (whereOf p)). matchCondition B row c = Inr True)
           else if orConds (whereOf p) \<noteq> []
           then (\<exists>c\<in>set (orConds (whereOf p)). matchCondition B row c = Inr True)
           else True))
   \<and> ((\<forall>c\<in>set (andConds (whereOf p) @ orConds (whereOf p)). \<not> isl (matchCondition B row c))
      \<longrightarrow> (\<exists>b. buildPredicate B p row = Inr b))"
proof (intro conjI allI impI)
  let ?w = "whereOf p"
  let ?A = "andConds ?w" and ?O = "orConds ?w"
  let ?m = "\<lambda>c. matchCondition B row c = Inr True"
  fix b
  assume r: "buildPredicate B p row = Inr b"
  show "b = (if ?A \<noteq> [] \<and> ?O \<noteq> [] then (\<forall>c\<in>set ?A. ?m c) \<or> (\<exists>c\<in>set ?O. ?m c)
             else if ?A \<noteq> [] then (\<forall>c\<in>set ?A. ?m c)
             else if ?O \<noteq> [] then (\<exists>c\<in>set ?O. ?m c) else True)"
  proof (cases "\<not> truthy ?w \<or> \<not> typeofObject ?w")
    case True
    then have "?A = []" "?O = []"
      by (simp_all add: andConds_def orConds_def asArray_not_object)
    with True r show ?thesis by (simp add: buildPredicate_def Let_def)
  next
    case False
    let ?ea = "if length ?A > 0 then every (matchCondition B row) ?A else Inr True"
    let ?eo = "if length ?O > 0 then some (matchCondition B row) ?O else Inr (length ?O = 0)"
    from False r have r': "(case ?ea of Inl e \<Rightarrow> Inl e | Inr andOk \<Rightarrow>
        (case ?eo of Inl e \<Rightarrow> Inl e | Inr orOk \<Rightarrow>
           if length ?A > 0 \<and> length ?O > 0 then Inr (andOk \<or> orOk)
           else Inr (if length ?A > 0 then andOk else orOk))) = Inr b"
      by (simp add: buildPredicate_def Let_def)
    then obtain andOk where a: "?ea = Inr andOk" by (cases ?ea) auto
    with r' obtain orOk where o: "?eo = Inr orOk" by (cases ?eo) auto
    from a have a': "?A \<noteq> [] \<longrightarrow> andOk = (\<forall>c\<in>set ?A. ?m c)"
      using every_Inr [of "matchCondition B row" ?A andOk] by (auto split: if_splits)
    from o have o': "?O \<noteq> [] \<longrightarrow> orOk = (\<exists>c\<in>set ?O. ?m c)"
      using some_Inr [of "matchCondition B row" ?O orOk] by (auto split: if_splits)
    from o have o'': "?O = [] \<longrightarrow> orOk" by (auto split: if_splits)
    from r' a o have "b = (if length ?A > 0 \<and> length ?O > 0 then andOk \<or> orOk
        else if length ?A > 0 then andOk else orOk)"
      by (simp only: sum.case) (auto split: if_splits)
    with a' o' o'' show ?thesis by (cases "?A = []"; cases "?O = []") simp_all
  qed
next
  assume "\<forall>c\<in>set (andConds (whereOf p) @ orConds (whereOf p)). \<not> isl (matchCondition B row c)"
  then have "every (matchCondition B row) (andConds (whereOf p))
      = Inr (\<forall>c\<in>set (andConds (whereOf p)). matchCondition B row c = Inr True)"
    and "some (matchCondition B row) (orConds (whereOf p))
      = Inr (\<exists>c\<in>set (orConds (whereOf p)). matchCondition B row c = Inr True)"
    by (simp_all add: every_total some_total)
  then show "\<exists>b. buildPredicate B p row = Inr b"
    by (auto simp: buildPredicate_def Let_def)
qed

text \<open>
  The same on the tree itself. The tree \<open>w\<close> has no truthy property
  \<^verbatim>\<open>where\<close>; the payload is the tree or an object that holds it under
  \<^verbatim>\<open>where\<close>; a group is the array under \<^verbatim>\<open>and\<close> or \<^verbatim>\<open>or\<close>, a single
  condition there counts as a group of one, and a falsy or absent value as the empty group.
\<close>

lemma buildPredicate_combination:
  assumes w: "\<not> truthy (getProp w ''where'')"
    and p: "p = w \<or> (truthy w \<and> getProp p ''where'' = w)"
    and As: "As = (if \<not> truthy (getProp w ''and'') then []
                 else case getProp w ''and'' of JArr xs \<Rightarrow> xs | c \<Rightarrow> [c])"
    and Os: "Os = (if \<not> truthy (getProp w ''or'') then []
                 else case getProp w ''or'' of JArr xs \<Rightarrow> xs | c \<Rightarrow> [c])"
  shows "(\<forall>b. buildPredicate B p row = Inr b \<longrightarrow>
      b = (if As \<noteq> [] \<and> Os \<noteq> []
           then (\<forall>c\<in>set As. matchCondition B row c = Inr True)
              \<or> (\<exists>c\<in>set Os. matchCondition B row c = Inr True)
           else if As \<noteq> [] then (\<forall>c\<in>set As. matchCondition B row c = Inr True)
           else if Os \<noteq> [] then (\<exists>c\<in>set Os. matchCondition B row c = Inr True)
           else True))
   \<and> ((\<forall>c\<in>set (As @ Os). \<not> isl (matchCondition B row c))
      \<longrightarrow> (\<exists>b. buildPredicate B p row = Inr b))"
proof -
  from w p have wh: "whereOf p = w" by (auto simp: whereOf_def)
  have a: "andConds (whereOf p) = As"
    unfolding wh As by (cases "getProp w ''and''") (simp_all add: andConds_def asArray_def)
  have o: "orConds (whereOf p) = Os"
    unfolding wh Os by (cases "getProp w ''or''") (simp_all add: orConds_def asArray_def)
  show ?thesis
    using buildPredicate_resolved_groups [of B p row] unfolding a o .
qed

text \<open>
  The rule on the rows of the specification's example and on four more payloads: a row
  that only the and-group accepts, a tree under \<^verbatim>\<open>where\<close> whose and-group is a
  single condition, an or-group alone, and two empty groups.
\<close>

lemma buildPredicate_combination_examples:
  "buildPredicate js
     (JObj [(''and'', JArr [JObj [(''field'', JStr ''age''), (''operator'', JStr ''gte''),
                                  (''value'', JNum (Fin 18))]]),
            (''or'', JArr [JObj [(''field'', JStr ''vip''), (''operator'', JStr ''eq''),
                                 (''value'', JBool True)]])])
     [(''age'', JNum (Fin 16)), (''vip'', JBool True)] = Inr True
   \<and> buildPredicate js
     (JObj [(''and'', JArr [JObj [(''field'', JStr ''age''), (''operator'', JStr ''gte''),
                                  (''value'', JNum (Fin 18))]]),
            (''or'', JArr [JObj [(''field'', JStr ''vip''), (''operator'', JStr ''eq''),
                                 (''value'', JBool True)]])])
     [(''age'', JNum (Fin 16)), (''vip'', JBool False)] = Inr False
   \<and> buildPredicate js
     (JObj [(''and'', JArr [JObj [(''field'', JStr ''age''), (''operator'', JStr ''gte''),
                                  (''value'', JNum (Fin 18))]]),
            (''or'', JArr [JObj [(''field'', JStr ''vip''), (''operator'', JStr ''eq''),
                                 (''value'', JBool True)]])])
     [(''age'', JNum (Fin 20)), (''vip'', JBool False)] = Inr True
   \<and> buildPredicate js
     (JObj [(''where'',
        JObj [(''and'', JObj [(''field'', JStr ''age''), (''operator'', JStr ''gte''),
                              (''value'', JNum (Fin 18))])])])
     [(''age'', JNum (Fin 16)), (''vip'', JBool True)] = Inr False
   \<and> buildPredicate js
     (JObj [(''or'', JArr [JObj [(''field'', JStr ''vip''), (''operator'', JStr ''eq''),
                                 (''value'', JBool True)]])])
     [(''age'', JNum (Fin 20)), (''vip'', JBool False)] = Inr False
   \<and> buildPredicate js (JObj [(''and'', JArr []), (''or'', JArr [])])
     [(''age'', JNum (Fin 20)), (''vip'', JBool False)] = Inr True"
  by (simp add: filters_eval js_eval)

text \<open>
  C5. With both groups non-empty, the predicate should return (every and-condition matches
  the row) or (some or-condition matches the row). It does not where a condition of the
  or-group raises: on a tree whose and-group is non-empty and satisfied by the row, so that
  the rule gives true whatever the or-group says, and whose or-group begins with a condition
  on which \<open>matchCondition\<close> raises, the predicate raises that exception, for the
  tree passed as it is or under \<^verbatim>\<open>where\<close>. The or-group is evaluated whatever the
  and-group said.
\<close>

theorem satisfied_and_group_raises:
  assumes "\<not> truthy (getProp w ''where'')"
    and "p = w \<or> getProp p ''where'' = w"
    and "getProp w ''and'' = JArr (a # as)"
    and "getProp w ''or'' = JArr (c # os)"
    and "\<forall>x\<in>set (a # as). matchCondition B row x = Inr True"
    and "matchCondition B row c = Inl e"
  shows "buildPredicate B p row = Inl e"
proof -
  from assms(3) obtain kvs where kvs: "w = JObj kvs" by (cases w) simp_all
  from assms(1,2) kvs have wh: "whereOf p = w" by (auto simp: whereOf_def)
  have a: "andConds w = a # as" and o: "orConds w = c # os"
    using assms(3,4) by (simp_all add: andConds_def orConds_def asArray_def)
  from assms(5) have "\<forall>x\<in>set (a # as). \<not> isl (matchCondition B row x)" by simp
  then have ev: "every (matchCondition B row) (a # as)
      = Inr (\<forall>x\<in>set (a # as). matchCondition B row x = Inr True)"
    by (rule every_total)
  with assms(5) have ev': "every (matchCondition B row) (a # as) = Inr True" by simp
  have so: "some (matchCondition B row) (c # os) = Inl e"
    using assms(6) by simp
  show ?thesis
    unfolding buildPredicate_def wh Let_def a o
    by (simp add: kvs ev' so del: every.simps some.simps)
qed

theorem satisfied_and_group_raises_witness:
  "matchCondition js [(''a'', JStr ''x'')]
     (JObj [(''field'', JStr ''a''), (''operator'', JStr ''eq''), (''value'', JStr ''x'')])
     = Inr True
   \<and> buildPredicate js
     (JObj [(''and'', JArr [JObj [(''field'', JStr ''a''), (''operator'', JStr ''eq''),
                                  (''value'', JStr ''x'')]]),
            (''or'', JArr [JObj [(''field'', JStr ''a''), (''operator'', JStr ''in''),
                                 (''values'', JStr ''x'')]])])
     [(''a'', JStr ''x'')] = Inl (TypeError ''options.some is not a function'')
   \<and> buildPredicate js
     (JObj [(''where'',
        JObj [(''and'', JArr [JObj [(''field'', JStr ''a''), (''operator'', JStr ''eq''),
                                    (''value'', JStr ''x'')]]),
              (''or'', JArr [JObj [(''field'', JStr ''a''), (''operator'', JStr ''in''),
                                   (''values'', JStr ''x'')]])])])
     [(''a'', JStr ''x'')] = Inl (TypeError ''options.some is not a function'')"
proof -
  let ?row = "[(''a'', JStr ''x'')]"
  let ?c1 = "JObj [(''field'', JStr ''a''), (''operator'', JStr ''eq''), (''value'', JStr ''x'')]"
  let ?c2 = "JObj [(''field'', JStr ''a''), (''operator'', JStr ''in''), (''values'', JStr ''x'')]"
  let ?w = "JObj [(''and'', JArr [?c1]), (''or'', JArr [?c2])]"
  let ?e = "TypeError ''options.some is not a function''"
  have m1: "matchCondition js ?row ?c1 = Inr True"
    by (simp add: filters_eval js_eval)
  have m2: "matchCondition js ?row ?c2 = Inl ?e"
    by (simp add: filters_eval js_eval)
  have "buildPredicate js ?w ?row = Inl ?e"
    using satisfied_and_group_raises [of ?w ?w ?c1 "[]" ?c2 "[]" js ?row ?e] m1 m2
    by simp
  moreover have "buildPredicate js (JObj [(''where'', ?w)]) ?row = Inl ?e"
    using satisfied_and_group_raises [of ?w "JObj [(''where'', ?w)]" ?c1 "[]" ?c2 "[]" js ?row ?e]
      m1 m2
    by simp
  ultimately show ?thesis using m1 by simp
qed


subsection \<open>Malformed conditions\<close>

lemma matchCondition_no_field:
  "\<not> truthy (getProp c ''field'') \<Longrightarrow> matchCondition B row c = Inr False"
  by (simp add: matchCondition_def Let_def)

lemma compare_unknown_op:
  "op \<notin> {''eq'', ''ne'', ''gt'', ''gte'', ''lt'', ''lte''} \<Longrightarrow> compare B l r op = False"
  by (auto simp: compare_def split: prod.splits)

lemma matchCondition_unknown_op:
  assumes "truthy (getProp c ''field'')"
    and "toLowerCase (String_js B (case getProp c ''operator'' of
            JUndefined \<Rightarrow> JStr ''eq'' | v \<Rightarrow> v)) = op"
    and "op \<notin> {''is_null'', ''is_not_null'', ''like'', ''between'', ''in'', ''not_in'',
                ''eq'', ''ne'', ''gt'', ''gte'', ''lt'', ''lte''}"
  shows "matchCondition B row c = Inr False"
proof -
  have "compare B l r op = False" for l r
    using assms(3) by (intro compare_unknown_op) simp
  with assms show ?thesis
    by (simp add: matchCondition_def Let_def)
qed

lemma matchCondition_between_shape:
  assumes "truthy (getProp c ''field'')"
    and "toLowerCase (String_js B (case getProp c ''operator'' of
            JUndefined \<Rightarrow> JStr ''eq'' | v \<Rightarrow> v)) = ''between''"
    and "\<not> isArray (if truthy (getProp c ''values'') then getProp c ''values''
                      else getProp c ''value'')"
  shows "matchCondition B row c = Inr False"
proof -
  let ?pair = "if truthy (getProp c ''values'') then getProp c ''values'' else getProp c ''value''"
  have "(case ?pair of JArr (lo # hi # _) \<Rightarrow> Inr (between B cell lo hi) | _ \<Rightarrow> Inr False)
      = (Inr False :: error + bool)" for cell
    using assms(3) by (cases ?pair) simp_all
  with assms(1,2) show ?thesis
    by (simp add: matchCondition_def Let_def)
qed

text \<open>
  C6. A malformed condition should evaluate to false and never raise. An \<^verbatim>\<open>in\<close>
  or \<^verbatim>\<open>not_in\<close> condition whose \<^verbatim>\<open>values\<close> is truthy and not an array raises
  a TypeError instead, on every row: \<open>inList\<close> calls \<^verbatim>\<open>options.some\<close> on it.
\<close>

theorem in_non_array_values_raises:
  assumes "truthy (getProp c ''field'')"
    and "toLowerCase (String_js B (case getProp c ''operator'' of
            JUndefined \<Rightarrow> JStr ''eq'' | v \<Rightarrow> v)) \<in> {''in'', ''not_in''}"
    and "truthy (getProp c ''values'')" and "\<not> isArray (getProp c ''values'')"
  shows "matchCondition B row c = Inl (TypeError ''options.some is not a function'')"
proof -
  have "inList B cell (getProp c ''values'') = Inl (TypeError ''options.some is not a function'')"
    for cell
    using assms(4) by (cases "getProp c ''values''") (simp_all add: inList_def)
  moreover have "truthy c \<and> typeofObject c"
    using assms(1) by (cases c) simp_all
  ultimately show ?thesis
    using assms(1,2,3) by (auto simp: matchCondition_def Let_def)
qed

theorem in_non_array_values_raises_witness:
  "matchCondition js [(''a'', JStr ''x'')]
     (JObj [(''field'', JStr ''a''), (''operator'', JStr ''in''), (''values'', JStr ''x'')])
   = Inl (TypeError ''options.some is not a function'')"
  using in_non_array_values_raises
    [of "JObj [(''field'', JStr ''a''), (''operator'', JStr ''in''), (''values'', JStr ''x'')]"
        js "[(''a'', JStr ''x'')]"]
  by (simp add: js_eval)

subsection \<open>The comparator\<close>

lemma toNumber_nullish:
  "isNullish a \<Longrightarrow> parseFloat B [] = NaN \<Longrightarrow> toNumber B a = None"
  by (auto simp: isNullish_def trim_def)

lemma coercePair_number:
  assumes "\<not> (isNullish a \<and> isNullish b)"
    and "toDateTime B a = None \<or> toDateTime B b = None"
    and "toNumber B a = Some x" and "toNumber B b = Some y"
  shows "coercePair B a b = (SNum x, SNum y, KNumber)"
  using assms unfolding coercePair_def
  by (cases "toDateTime B a"; cases "toDateTime B b"; simp)

lemma coercePair_string:
  assumes "\<not> (isNullish a \<and> isNullish b)"
    and "toDateTime B a = None \<or> toDateTime B b = None"
    and "toNumber B a = None \<or> toNumber B b = None"
    and "toBool a = None \<or> toBool b = None"
  shows "coercePair B a b =
     (SStr (if a = JNull then [] else String_js B a),
      SStr (if b = JNull then [] else String_js B b), KString)"
proof -
  have d: "(case (toDateTime B a, toDateTime B b) of
             (Some ldt, Some rdt) \<Rightarrow> f ldt rdt | _ \<Rightarrow> g) = g" for f and g :: "scalar \<times> scalar \<times> kind"
    using assms(2) by (cases "toDateTime B a"; cases "toDateTime B b"; simp)
  have n: "(case (toNumber B a, toNumber B b) of
             (Some l, Some r) \<Rightarrow> f l r | _ \<Rightarrow> g) = g" for f and g :: "scalar \<times> scalar \<times> kind"
    using assms(3) by (cases "toNumber B a"; cases "toNumber B b"; simp)
  have b: "(case (toBool a, toBool b) of
             (Some l, Some r) \<Rightarrow> f l r | _ \<Rightarrow> g) = g" for f and g :: "scalar \<times> scalar \<times> kind"
    using assms(4) by (cases "toBool a"; cases "toBool b"; simp)
  show ?thesis
    unfolding coercePair_def using assms(1) by (simp only: d n b if_False)
qed

text \<open>
  C3, as stated: whenever both inputs coerce to numbers, \<^verbatim>\<open>compare(a, b, "gt")\<close> is
  the numeric comparison. It is not: \<^verbatim>\<open>"2020-02"\<close> and \<^verbatim>\<open>"2020-01"\<close> both
  coerce to the number 2020, and both parse as dates, which \<open>coercePair\<close> tries first;
  as dates the first is the greater.
\<close>

theorem compare_gt_counterexample:
  "toNumber js (JStr ''2020-02'') = Some (Fin 2020)
   \<and> toNumber js (JStr ''2020-01'') = Some (Fin 2020)
   \<and> compare js (JStr ''2020-02'') (JStr ''2020-01'') ''gt'' \<noteq> num_gt (Fin 2020) (Fin 2020)"
  by (simp add: filters_eval js_eval)

text \<open>
  C3, amended: for every pair of inputs that both coerce to numbers and do not both parse
  as datetimes, \<^verbatim>\<open>compare(a, b, "gt")\<close> is true exactly when the number of \<open>a\<close> is
  greater than the number of \<open>b\<close> (on a runtime whose \<^verbatim>\<open>parseFloat("")\<close> is
  \<^verbatim>\<open>NaN\<close>, as ECMAScript has it); and a pair that is not jointly nullish, datetime,
  number or boolean is compared as strings.
\<close>

theorem compare_gt:
  "(parseFloat B [] = NaN \<and> toNumber B a = Some x \<and> toNumber B b = Some y
      \<and> (toDateTime B a = None \<or> toDateTime B b = None)
     \<longrightarrow> compare B a b ''gt'' = num_gt x y)
   \<and> (\<not> (isNullish a \<and> isNullish b)
      \<and> (toDateTime B a = None \<or> toDateTime B b = None)
      \<and> (toNumber B a = None \<or> toNumber B b = None)
      \<and> (toBool a = None \<or> toBool b = None)
     \<longrightarrow> compare B a b ''gt''
         = str_lt (if b = JNull then [] else String_js B b)
                  (if a = JNull then [] else String_js B a))"
proof (intro conjI impI)
  assume h: "parseFloat B [] = NaN \<and> toNumber B a = Some x \<and> toNumber B b = Some y
      \<and> (toDateTime B a = None \<or> toDateTime B b = None)"
  then have "\<not> isNullish a"
    using toNumber_nullish [of a B] by auto
  then have "coercePair B a b = (SNum x, SNum y, KNumber)"
    using h by (intro coercePair_number) simp_all
  then show "compare B a b ''gt'' = num_gt x y"
    by (simp add: compare_def num_gt_def)
next
  assume h: "\<not> (isNullish a \<and> isNullish b)
      \<and> (toDateTime B a = None \<or> toDateTime B b = None)
      \<and> (toNumber B a = None \<or> toNumber B b = None)
      \<and> (toBool a = None \<or> toBool b = None)"
  then have "coercePair B a b =
     (SStr (if a = JNull then [] else String_js B a),
      SStr (if b = JNull then [] else String_js B b), KString)"
    by (intro coercePair_string) simp_all
  then show "compare B a b ''gt''
         = str_lt (if b = JNull then [] else String_js B b)
                  (if a = JNull then [] else String_js B a)"
    by (simp add: compare_def)
qed

theorem compare_gt_witness:
  "compare js (JNum (Fin 10)) (JStr ''9.5'') ''gt'' = num_gt (Fin 10) (Fin (19 / 2))
   \<and> compare js (JStr ''abc'') (JNum (Fin 5)) ''gt'' = str_lt ''5'' ''abc''"
proof -
  have n: "parseFloat js [] = NaN \<and> toNumber js (JNum (Fin 10)) = Some (Fin 10)
      \<and> toNumber js (JStr ''9.5'') = Some (Fin (19 / 2))
      \<and> (toDateTime js (JNum (Fin 10)) = None \<or> toDateTime js (JStr ''9.5'') = None)"
    by (simp add: js_eval)
  have s: "\<not> (isNullish (JStr ''abc'') \<and> isNullish (JNum (Fin 5)))
      \<and> (toDateTime js (JStr ''abc'') = None \<or> toDateTime js (JNum (Fin 5)) = None)
      \<and> (toNumber js (JStr ''abc'') = None \<or> toNumber js (JNum (Fin 5)) = None)
      \<and> (toBool (JStr ''abc'') = None \<or> toBool (JNum (Fin 5)) = None)"
    by (simp add: js_eval isNullish_def)
  from n s show ?thesis
    using compare_gt [of js "JNum (Fin 10)" "Fin 10" "JStr ''9.5''" "Fin (19 / 2)"]
      compare_gt [of js "JStr ''abc''" x "JNum (Fin 5)" y for x y]
    by (simp add: js_eval)
qed

subsection \<open>Blank ranges\<close>

lemma trim_blank: "list_all isWhiteSpace s \<Longrightarrow> trim s = []"
proof -
  assume "list_all isWhiteSpace s"
  then have "dropWhile isWhiteSpace s = []"
    by (induction s) simp_all
  then show ?thesis by (simp only: trim_def rev.simps dropWhile.simps)
qed

text \<open>
  C9. For every spreadsheet, state and \<^verbatim>\<open>useCache\<close>: a range that is undefined,
  empty or white space only makes \<^verbatim>\<open>readValues\<close> throw
  \<^verbatim>\<open>"Range must be a non-empty string"\<close>, with the service unchanged: the cache was
  not consulted and nothing was fetched.
\<close>

theorem readValues_blank_range:
  assumes "rng = None \<or> (\<exists>s. rng = Some s \<and> list_all isWhiteSpace s)"
  shows "readValues cfg st spreadsheetId rng useCache now
     = (Throws (Error ''Range must be a non-empty string''), st)"
  using assms by (auto simp: readValues_def trim_blank)

theorem readValues_blank_range_witness:
  "readValues \<lparr>CACHE_TTL = 10000, CACHE_MAX_ENTRIES = 200\<rparr> initial ''sheet1'' (Some '' '') True 0
     = (Throws (Error ''Range must be a non-empty string''), initial)
   \<and> readValues \<lparr>CACHE_TTL = 10000, CACHE_MAX_ENTRIES = 200\<rparr> initial ''sheet1'' None False 0
     = (Throws (Error ''Range must be a non-empty string''), initial)"
  using readValues_blank_range [of "Some '' ''" "\<lparr>CACHE_TTL = 10000, CACHE_MAX_ENTRIES = 200\<rparr>"
      initial "''sheet1''" True 0]
    readValues_blank_range [of None "\<lparr>CACHE_TTL = 10000, CACHE_MAX_ENTRIES = 200\<rparr>"
      initial "''sheet1''" False 0]
  by (simp add: isWhiteSpace_def)

subsection \<open>Dedup\<close>

lemma uniqueLoop_result:
  "uniqueLoop ck rows seen result = result @ uniqueLoop ck rows seen []"
proof (induction rows arbitrary: seen result)
  case Nil
  then show ?case by simp
next
  case (Cons row rows)
  show ?case
  proof (cases "ck row \<in> seen")
    case True
    then show ?thesis using Cons.IH [of seen result] by simp
  next
    case False
    then show ?thesis
      using Cons.IH [of "insert (ck row) seen" "result @ [row]"]
        Cons.IH [of "insert (ck row) seen" "[row]"] by simp
  qed
qed

lemma uniqueLoop_Cons:
  "uniqueLoop ck (row # rows) seen [] =
     (if ck row \<in> seen then uniqueLoop ck rows seen []
      else row # uniqueLoop ck rows (insert (ck row) seen) [])"
  using uniqueLoop_result [of ck rows "insert (ck row) seen" "[row]"] by simp

lemma uniqueLoop_subseq: "subseq (uniqueLoop ck rows seen []) rows"
proof (induction rows arbitrary: seen)
  case Nil
  then show ?case by simp
next
  case (Cons row rows)
  show ?case
    using Cons.IH [of seen] Cons.IH [of "insert (ck row) seen"]
    by (simp only: uniqueLoop_Cons split: if_split) auto
qed

lemma uniqueLoop_fresh:
  "distinct (map ck (uniqueLoop ck rows seen [])) \<and> ck ` set (uniqueLoop ck rows seen []) \<inter> seen = {}"
proof (induction rows arbitrary: seen)
  case Nil
  then show ?case by simp
next
  case (Cons row rows)
  show ?case
  proof (cases "ck row \<in> seen")
    case True
    then show ?thesis using Cons.IH [of seen] by (simp only: uniqueLoop_Cons if_True)
  next
    case False
    then show ?thesis
      using Cons.IH [of "insert (ck row) seen"] by (simp only: uniqueLoop_Cons if_False) auto
  qed
qed

lemma uniqueLoop_id:
  "distinct (map ck rows) \<Longrightarrow> ck ` set rows \<inter> seen = {} \<Longrightarrow> uniqueLoop ck rows seen [] = rows"
proof (induction rows arbitrary: seen)
  case Nil
  then show ?case by simp
next
  case (Cons row rows)
  from Cons.prems have "ck row \<notin> seen" by auto
  moreover from Cons.prems have "uniqueLoop ck rows (insert (ck row) seen) [] = rows"
    by (intro Cons.IH) auto
  ultimately show ?case by (simp only: uniqueLoop_Cons if_False)
qed

text \<open>
  C10. For every row list and every \<^verbatim>\<open>uniqueBy\<close>: the output of the dedup filter is
  a subsequence of its input, in the input's order, and filtering the output again
  changes nothing.
\<close>

theorem applyUnique_idempotent_subseq:
  "subseq (applyUnique B rows uniqueBy) rows
   \<and> applyUnique B (applyUnique B rows uniqueBy) uniqueBy = applyUnique B rows uniqueBy"
proof (cases "truthy uniqueBy")
  case False
  then show ?thesis by (simp add: applyUnique_def)
next
  case True
  let ?ck = "compoundKey B (case uniqueBy of JArr ks \<Rightarrow> ks | _ \<Rightarrow> [uniqueBy])"
  have "uniqueLoop ?ck (uniqueLoop ?ck rows {} []) {} [] = uniqueLoop ?ck rows {} []"
    using uniqueLoop_fresh [of ?ck rows "{}"] by (intro uniqueLoop_id) simp_all
  with True show ?thesis
    by (simp add: applyUnique_def uniqueLoop_subseq)
qed

theorem applyUnique_idempotent_subseq_witness:
  "applyUnique js [[(''id'', JNum (Fin 1)), (''name'', JStr ''a'')],
                   [(''id'', JNum (Fin 1)), (''name'', JStr ''b'')],
                   [(''id'', JNum (Fin 2)), (''name'', JStr ''c'')]] (JStr ''id'')
     = [[(''id'', JNum (Fin 1)), (''name'', JStr ''a'')],
        [(''id'', JNum (Fin 2)), (''name'', JStr ''c'')]]
   \<and> applyUnique js [[(''id'', JNum (Fin 1)), (''name'', JStr ''a'')],
                     [(''id'', JNum (Fin 2)), (''name'', JStr ''c'')]] (JStr ''id'')
     = [[(''id'', JNum (Fin 1)), (''name'', JStr ''a'')],
        [(''id'', JNum (Fin 2)), (''name'', JStr ''c'')]]"
proof -
  have e: "applyUnique js [[(''id'', JNum (Fin 1)), (''name'', JStr ''a'')],
                   [(''id'', JNum (Fin 1)), (''name'', JStr ''b'')],
                   [(''id'', JNum (Fin 2)), (''name'', JStr ''c'')]] (JStr ''id'')
     = [[(''id'', JNum (Fin 1)), (''name'', JStr ''a'')],
        [(''id'', JNum (Fin 2)), (''name'', JStr ''c'')]]"
    by (simp add: applyUnique_def compoundKey_def rowGet_def js_eval)
  show ?thesis
    using applyUnique_idempotent_subseq [of js
        "[[(''id'', JNum (Fin 1)), (''name'', JStr ''a'')],
          [(''id'', JNum (Fin 1)), (''name'', JStr ''b'')],
          [(''id'', JNum (Fin 2)), (''name'', JStr ''c'')]]" "JStr ''id''"]
    by (simp only: e simp_thms)
qed

subsection \<open>Capacity of the cache\<close>

lemma update_new_key: "k \<notin> fst ` set al \<Longrightarrow> AList.update k v al = al @ [(k, v)]"
  by (induction al) auto

lemma pruneCache_at_capacity:
  assumes "int (length c) \<le> CACHE_MAX_ENTRIES cfg"
    and "\<forall>(key, entry)\<in>set c. now - timestamp entry \<le> CACHE_TTL cfg"
  shows "pruneCache cfg now c = c"
proof -
  have "pruneExpired cfg now c = c"
    unfolding pruneExpired_def using assms(2) by (intro filter_True) auto
  moreover have "evictOldest cfg c = c"
    using assms(1) by (simp add: evictOldest.simps)
  ultimately show ?thesis by (simp add: pruneCache_def)
qed

text \<open>
  C4. After a cached fetch stores its entry the cache should hold at most
  \<^verbatim>\<open>CACHE_MAX_ENTRIES\<close> entries, the least recently used one being evicted for
  entry N+1. The \<^verbatim>\<open>then\<close> callback prunes before it stores: on a cache that holds
  exactly \<^verbatim>\<open>CACHE_MAX_ENTRIES\<close> unexpired entries it evicts nothing, and the cache
  then holds one entry more than the maximum.
\<close>

theorem store_at_capacity_evicts_nothing:
  assumes "int (length (readCache st)) = CACHE_MAX_ENTRIES cfg"
    and "\<forall>(key, entry)\<in>set (readCache st). fc_now fc - timestamp entry \<le> CACHE_TTL cfg"
    and "fc_useCache fc"
    and "fc_cacheKey fc \<notin> fst ` set (readCache st)"
  shows "readCache (thenCallback cfg fc vals st)
       = readCache st @ [(fc_cacheKey fc, \<lparr>timestamp = fc_now fc, data = vals\<rparr>)]
     \<and> int (length (readCache (thenCallback cfg fc vals st))) = CACHE_MAX_ENTRIES cfg + 1"
proof -
  have "pruneCache cfg (fc_now fc) (readCache st) = readCache st"
    using assms(1,2) by (intro pruneCache_at_capacity) simp_all
  with assms(1,3,4) show ?thesis
    by (simp add: thenCallback_def update_new_key)
qed

lemmas service_eval = readValues_def afterCacheMiss_def startFetch_def step_def thenCallback_def
  finallyCallback_def pruneCache_def pruneExpired_def normalizedRange_def initial_def trim_def
  isWhiteSpace_def Let_def

text \<open>
  With \<^verbatim>\<open>CACHE_MAX_ENTRIES = 2\<close>, three cached reads of three ranges, each fetched
  and stored before the next, leave three entries in the cache.
\<close>

theorem store_at_capacity_evicts_nothing_witness:
  "map fst (readCache (run \<lparr>CACHE_TTL = 10000, CACHE_MAX_ENTRIES = 2\<rparr>
      [Call ''s'' (Some ''A'') True 0, Resolve 0 [[JStr ''a'']],
       Call ''s'' (Some ''B'') True 1, Resolve 1 [[JStr ''b'']],
       Call ''s'' (Some ''C'') True 2, Resolve 2 [[JStr ''c'']]] initial))
   = [''s:A'', ''s:B'', ''s:C'']"
proof -
  let ?cfg = "\<lparr>CACHE_TTL = 10000, CACHE_MAX_ENTRIES = 2\<rparr>"
  let ?fc = "\<lparr>fc_cacheKey = ''s:C'', fc_useCache = True, fc_now = 2, fc_settled = False\<rparr>"
  let ?st = "run ?cfg [Call ''s'' (Some ''A'') True 0, Resolve 0 [[JStr ''a'']],
       Call ''s'' (Some ''B'') True 1, Resolve 1 [[JStr ''b'']],
       Call ''s'' (Some ''C'') True 2] initial"
  have c: "readCache ?st = [(''s:A'', \<lparr>timestamp = 0, data = [[JStr ''a'']]\<rparr>),
                            (''s:B'', \<lparr>timestamp = 1, data = [[JStr ''b'']]\<rparr>)]"
    by (simp add: service_eval evictOldest.simps)
  have p: "pendingFetches ?st 2 = Some ?fc"
    by (simp add: service_eval evictOldest.simps)
  have "readCache (thenCallback ?cfg ?fc [[JStr ''c'']] ?st)
       = readCache ?st @ [(''s:C'', \<lparr>timestamp = 2, data = [[JStr ''c'']]\<rparr>)]"
    using store_at_capacity_evicts_nothing [of ?st ?cfg ?fc "[[JStr ''c'']]"]
    by (simp only: c) simp
  moreover have "run ?cfg [Call ''s'' (Some ''A'') True 0, Resolve 0 [[JStr ''a'']],
       Call ''s'' (Some ''B'') True 1, Resolve 1 [[JStr ''b'']],
       Call ''s'' (Some ''C'') True 2, Resolve 2 [[JStr ''c'']]] initial
     = step ?cfg (Resolve 2 [[JStr ''c'']]) ?st"
    by simp
  ultimately show ?thesis
    using p c by (simp add: step_def)
qed

subsection \<open>Coalescing\<close>

lemma inflightInv_initial: "inflightInv initial"
  by (simp add: inflightInv_def initial_def)

lemma inflightInv_cache [simp]: "inflightInv (st\<lparr>readCache := c\<rparr>) = inflightInv st"
  by (simp add: inflightInv_def)

lemma tracked_cache [simp]: "tracked (st\<lparr>readCache := c\<rparr>) k p s = tracked st k p s"
  by (simp add: tracked_def)

lemma readValues_shape:
  "(\<exists>c. snd (readValues cfg st sid rng useCache now) = st\<lparr>readCache := c\<rparr>)
   \<or> (\<exists>c tr k. (useCache \<longrightarrow> inflightReads st k = None)
        \<and> snd (readValues cfg st sid rng useCache now)
          = snd (startFetch (st\<lparr>readCache := c\<rparr>) sid tr k useCache now))"
proof -
  have same: "\<exists>c. st = st\<lparr>readCache := c\<rparr>"
    by (rule exI [of _ "readCache st"]) simp
  have miss: "(\<exists>c'. snd (afterCacheMiss (st\<lparr>readCache := c\<rparr>) sid tr k useCache now)
                  = st\<lparr>readCache := c'\<rparr>)
     \<or> (\<exists>c' tr' k'. (useCache \<longrightarrow> inflightReads st k' = None)
        \<and> snd (afterCacheMiss (st\<lparr>readCache := c\<rparr>) sid tr k useCache now)
          = snd (startFetch (st\<lparr>readCache := c'\<rparr>) sid tr' k' useCache now))" for c tr k
  proof (cases useCache)
    case False
    then show ?thesis
      by (intro disjI2 exI [of _ "AList.delete k c"] exI [of _ tr] exI [of _ k])
        (simp add: afterCacheMiss_def)
  next
    case True
    show ?thesis
    proof (cases "inflightReads st k")
      case None
      with True show ?thesis
        by (intro disjI2 exI [of _ c] exI [of _ tr] exI [of _ k]) (simp add: afterCacheMiss_def)
    next
      case (Some q)
      with True show ?thesis
        by (intro disjI1 exI [of _ c]) (simp add: afterCacheMiss_def)
    qed
  qed
  have miss0: "(\<exists>c'. snd (afterCacheMiss st sid tr k useCache now) = st\<lparr>readCache := c'\<rparr>)
     \<or> (\<exists>c' tr' k'. (useCache \<longrightarrow> inflightReads st k' = None)
        \<and> snd (afterCacheMiss st sid tr k useCache now)
          = snd (startFetch (st\<lparr>readCache := c'\<rparr>) sid tr' k' useCache now))" for tr k
    using miss [of "readCache st" tr k] by simp
  show ?thesis
  proof (cases rng)
    case None
    then show ?thesis using same by (simp add: readValues_def)
  next
    case (Some r)
    let ?tr = "trim r"
    show ?thesis
    proof (cases "?tr = []")
      case True
      with Some show ?thesis using same by (simp add: readValues_def)
    next
      case False
      let ?k = "sid @ '':'' @ ?tr"
      show ?thesis
      proof (cases useCache)
        case nocache: False
        with \<open>rng = Some r\<close> False show ?thesis
          using miss0 [of ?tr ?k] by (simp add: readValues_def Let_def)
      next
        case cached: True
        show ?thesis
        proof (cases "map_of (readCache st) ?k")
          case None
          with \<open>rng = Some r\<close> False cached show ?thesis
            using miss0 [of ?tr ?k] by (simp add: readValues_def Let_def)
        next
          case (Some entry)
          show ?thesis
          proof (cases "now - timestamp entry \<le> CACHE_TTL cfg")
            case True
            with Some \<open>rng = Some r\<close> False cached show ?thesis
              by (intro disjI1 exI [of _ "AList.update ?k entry (AList.delete ?k (readCache st))"])
                (simp add: readValues_def Let_def)
          next
            case expired: False
            with Some \<open>rng = Some r\<close> False cached show ?thesis
              using miss [of "AList.delete ?k (readCache st)" ?tr ?k]
              by (simp add: readValues_def Let_def)
          qed
        qed
      qed
    qed
  qed
qed

lemma thenCallback_shape: "\<exists>c. thenCallback cfg fc vals st = st\<lparr>readCache := c\<rparr>"
proof (cases "fc_useCache fc")
  case True
  then show ?thesis
    by (intro exI [of _ "AList.update (fc_cacheKey fc) \<lparr>timestamp = fc_now fc, data = vals\<rparr>
          (pruneCache cfg (fc_now fc) (readCache st))"]) (simp add: thenCallback_def)
next
  case False
  then show ?thesis by (intro exI [of _ "readCache st"]) (simp add: thenCallback_def)
qed

lemma inflightInvI:
  assumes "\<And>k p. inflightReads st k = Some p \<Longrightarrow>
      \<exists>fc. pendingFetches st p = Some fc \<and> fc_cacheKey fc = k \<and> fc_useCache fc"
    and "\<And>p fc. pendingFetches st p = Some fc \<Longrightarrow> fc_useCache fc \<Longrightarrow>
      inflightReads st (fc_cacheKey fc) = Some p"
    and "\<And>p fc. pendingFetches st p = Some fc \<Longrightarrow> p < nextPromise st"
  shows "inflightInv st"
  using assms unfolding inflightInv_def by blast

lemma inflightInv_registered:
  "inflightInv st \<Longrightarrow> inflightReads st k = Some p \<Longrightarrow>
     \<exists>fc. pendingFetches st p = Some fc \<and> fc_cacheKey fc = k \<and> fc_useCache fc"
  unfolding inflightInv_def by blast

lemma inflightInv_pending:
  "inflightInv st \<Longrightarrow> pendingFetches st p = Some fc \<Longrightarrow> fc_useCache fc \<Longrightarrow>
     inflightReads st (fc_cacheKey fc) = Some p"
  unfolding inflightInv_def by blast

lemma inflightInv_fresh:
  "inflightInv st \<Longrightarrow> pendingFetches st p = Some fc \<Longrightarrow> p < nextPromise st"
  unfolding inflightInv_def by blast

lemma startFetch_fields:
  "inflightReads (snd (startFetch st sid tr k useCache now))
     = (if useCache then (inflightReads st)(k \<mapsto> nextPromise st) else inflightReads st)"
  "pendingFetches (snd (startFetch st sid tr k useCache now))
     = (pendingFetches st)(nextPromise st \<mapsto>
         \<lparr>fc_cacheKey = k, fc_useCache = useCache, fc_now = now, fc_settled = False\<rparr>)"
  "nextPromise (snd (startFetch st sid tr k useCache now)) = Suc (nextPromise st)"
  "fetchCalls (snd (startFetch st sid tr k useCache now))
     = fetchCalls st @ [(sid, normalizedRange tr)]"
  "fst (startFetch st sid tr k useCache now) = Awaits (nextPromise st)"
  by (simp_all add: startFetch_def Let_def)

lemma inflightInv_startFetch:
  assumes inv: "inflightInv st" and free: "useCache \<longrightarrow> inflightReads st k = None"
  shows "inflightInv (snd (startFetch st sid tr k useCache now))"
proof (rule inflightInvI)
  let ?st' = "snd (startFetch st sid tr k useCache now)"
  let ?n = "nextPromise st"
  have fresh: "pendingFetches st ?n = None"
    using inflightInv_fresh [OF inv, of ?n] by (cases "pendingFetches st ?n") auto
  {
    fix k' p
    assume a: "inflightReads ?st' k' = Some p"
    show "\<exists>fc. pendingFetches ?st' p = Some fc \<and> fc_cacheKey fc = k' \<and> fc_useCache fc"
    proof (cases "useCache \<and> k' = k")
      case True
      with a have "p = ?n" by (simp add: startFetch_fields)
      with True show ?thesis by (simp add: startFetch_fields)
    next
      case False
      with a have old: "inflightReads st k' = Some p"
        by (auto simp: startFetch_fields split: if_splits)
      then obtain fc where fc: "pendingFetches st p = Some fc" "fc_cacheKey fc = k'"
          "fc_useCache fc"
        using inflightInv_registered [OF inv] by blast
      with fresh have "p \<noteq> ?n" by auto
      with fc show ?thesis by (simp add: startFetch_fields)
    qed
  next
    fix p fc
    assume a: "pendingFetches ?st' p = Some fc" and u: "fc_useCache fc"
    show "inflightReads ?st' (fc_cacheKey fc) = Some p"
    proof (cases "p = ?n")
      case True
      with a u show ?thesis by (auto simp: startFetch_fields)
    next
      case False
      with a have old: "pendingFetches st p = Some fc" by (simp add: startFetch_fields)
      then have reg: "inflightReads st (fc_cacheKey fc) = Some p"
        using inflightInv_pending [OF inv] u by blast
      with free have "useCache \<longrightarrow> fc_cacheKey fc \<noteq> k" by auto
      with reg show ?thesis by (simp add: startFetch_fields)
    qed
  next
    fix p fc
    assume a: "pendingFetches ?st' p = Some fc"
    show "p < nextPromise ?st'"
    proof (cases "p = ?n")
      case True
      then show ?thesis by (simp add: startFetch_fields)
    next
      case False
      with a have "pendingFetches st p = Some fc" by (simp add: startFetch_fields)
      then have "p < ?n" using inflightInv_fresh [OF inv] by blast
      then show ?thesis by (simp add: startFetch_fields)
    qed
  }
qed

lemma tracked_startFetch:
  assumes "inflightInv st" and "tracked st k p s"
    and "useCache \<longrightarrow> inflightReads st k' = None"
  shows "tracked (snd (startFetch st sid tr k' useCache now)) k p s"
proof -
  from assms(2) obtain fc where fc: "inflightReads st k = Some p" "pendingFetches st p = Some fc"
      "fc_cacheKey fc = k" "fc_useCache fc" "fc_settled fc = s"
    by (auto simp: tracked_def)
  from inflightInv_fresh [OF assms(1) fc(2)] have "p \<noteq> nextPromise st" by simp
  moreover from assms(3) fc(1) have "useCache \<longrightarrow> k' \<noteq> k" by auto
  ultimately show ?thesis
    using fc by (auto simp: tracked_def startFetch_fields)
qed

text \<open>The state after the \<^verbatim>\<open>finally\<close> reaction of promise \<open>q\<close> with closure \<open>fc\<close>.\<close>

lemma inflightInv_finally:
  assumes inv: "inflightInv st" and q: "pendingFetches st q = Some fc"
  shows "inflightInv ((if fc_useCache fc then finallyCallback fc st else st)
        \<lparr>pendingFetches := (pendingFetches st)(q := None)\<rparr>)"
    (is "inflightInv ?st'")
proof (rule inflightInvI)
  have infl: "inflightReads ?st' = (if fc_useCache fc
      then (inflightReads st)(fc_cacheKey fc := None) else inflightReads st)"
    by (simp add: finallyCallback_def)
  have pend: "pendingFetches ?st' = (pendingFetches st)(q := None)"
    by (simp add: finallyCallback_def)
  have nxt: "nextPromise ?st' = nextPromise st"
    by (simp add: finallyCallback_def)
  {
    fix k p
    assume a: "inflightReads ?st' k = Some p"
    then have old: "inflightReads st k = Some p" and k: "fc_useCache fc \<longrightarrow> k \<noteq> fc_cacheKey fc"
      by (auto simp: infl split: if_splits)
    then obtain fc' where fc': "pendingFetches st p = Some fc'" "fc_cacheKey fc' = k"
        "fc_useCache fc'"
      using inflightInv_registered [OF inv] by blast
    have "p \<noteq> q"
    proof
      assume "p = q"
      with q fc' have "fc' = fc" by simp
      with fc' k show False by simp
    qed
    with fc' show "\<exists>fc. pendingFetches ?st' p = Some fc \<and> fc_cacheKey fc = k \<and> fc_useCache fc"
      by (simp add: pend)
  next
    fix p fc'
    assume a: "pendingFetches ?st' p = Some fc'" and u: "fc_useCache fc'"
    then have pq: "p \<noteq> q" and old: "pendingFetches st p = Some fc'"
      by (auto simp: pend split: if_splits)
    then have reg: "inflightReads st (fc_cacheKey fc') = Some p"
      using inflightInv_pending [OF inv] u by blast
    have "fc_useCache fc \<longrightarrow> fc_cacheKey fc' \<noteq> fc_cacheKey fc"
    proof (intro impI notI)
      assume "fc_useCache fc" and "fc_cacheKey fc' = fc_cacheKey fc"
      with inflightInv_pending [OF inv q] reg pq show False by simp
    qed
    with reg show "inflightReads ?st' (fc_cacheKey fc') = Some p"
      by (simp add: infl)
  next
    fix p fc'
    assume "pendingFetches ?st' p = Some fc'"
    then have "pendingFetches st p = Some fc'"
      by (auto simp: pend split: if_splits)
    then show "p < nextPromise ?st'"
      using inflightInv_fresh [OF inv] by (simp add: nxt)
  }
qed

lemma inflightInv_settled:
  assumes inv: "inflightInv st" and q: "pendingFetches st q = Some fc"
  shows "inflightInv (st\<lparr>readCache := c,
        pendingFetches := (pendingFetches st)(q \<mapsto> fc\<lparr>fc_settled := True\<rparr>)\<rparr>)"
    (is "inflightInv ?st'")
proof (rule inflightInvI)
  {
    fix k p
    assume "inflightReads ?st' k = Some p"
    then have "inflightReads st k = Some p" by simp
    then obtain fc' where "pendingFetches st p = Some fc'" "fc_cacheKey fc' = k" "fc_useCache fc'"
      using inflightInv_registered [OF inv] by blast
    with q show "\<exists>fc. pendingFetches ?st' p = Some fc \<and> fc_cacheKey fc = k \<and> fc_useCache fc"
      by (cases "p = q") simp_all
  next
    fix p fc'
    assume a: "pendingFetches ?st' p = Some fc'" and u: "fc_useCache fc'"
    show "inflightReads ?st' (fc_cacheKey fc') = Some p"
    proof (cases "p = q")
      case True
      with a have "fc' = fc\<lparr>fc_settled := True\<rparr>" by simp
      with u inflightInv_pending [OF inv q] True show ?thesis by simp
    next
      case False
      with a u inflightInv_pending [OF inv, of p fc'] show ?thesis by simp
    qed
  next
    fix p fc'
    assume "pendingFetches ?st' p = Some fc'"
    then have "\<exists>fc''. pendingFetches st p = Some fc''"
      using q by (cases "p = q") simp_all
    then show "p < nextPromise ?st'"
      using inflightInv_fresh [OF inv] by auto
  }
qed

lemma inflightInv_step:
  assumes "inflightInv st"
  shows "inflightInv (step cfg ev st)"
proof (cases ev)
  case (Call sid rng useCache now)
  from readValues_shape [of cfg st sid rng useCache now] show ?thesis
  proof (elim disjE exE conjE)
    fix c assume "snd (readValues cfg st sid rng useCache now) = st\<lparr>readCache := c\<rparr>"
    with assms Call show ?thesis by (simp add: step_def)
  next
    fix c tr k
    assume k: "useCache \<longrightarrow> inflightReads st k = None"
      and eq: "snd (readValues cfg st sid rng useCache now)
          = snd (startFetch (st\<lparr>readCache := c\<rparr>) sid tr k useCache now)"
    have "inflightInv (snd (startFetch (st\<lparr>readCache := c\<rparr>) sid tr k useCache now))"
      using assms k by (intro inflightInv_startFetch) simp_all
    with eq Call show ?thesis by (simp add: step_def)
  qed
next
  case (Resolve q vals)
  show ?thesis
  proof (cases "pendingFetches st q")
    case None
    with assms Resolve show ?thesis by (simp add: step_def)
  next
    case (Some fc)
    obtain c where c: "thenCallback cfg fc vals st = st\<lparr>readCache := c\<rparr>"
      using thenCallback_shape by blast
    from inflightInv_settled [OF assms Some, of c] assms Some Resolve c
    show ?thesis by (simp add: step_def)
  qed
next
  case (Reject q e)
  show ?thesis
  proof (cases "pendingFetches st q")
    case None
    with assms Reject show ?thesis by (simp add: step_def)
  next
    case (Some fc)
    from inflightInv_settled [OF assms Some, of "readCache st"] assms Some Reject
    show ?thesis by (simp add: step_def)
  qed
next
  case (Finally q)
  show ?thesis
  proof (cases "pendingFetches st q")
    case None
    with assms Finally show ?thesis by (simp add: step_def)
  next
    case (Some fc)
    from inflightInv_finally [OF assms Some] assms Some Finally
    show ?thesis by (simp add: step_def)
  qed
qed

lemma inflightInv_run: "inflightInv st \<Longrightarrow> inflightInv (run cfg evs st)"
  by (induction evs arbitrary: st) (simp_all add: inflightInv_step)

lemma trackedI:
  "inflightReads st k = Some p \<Longrightarrow> pendingFetches st p = Some fc \<Longrightarrow> fc_cacheKey fc = k \<Longrightarrow>
     fc_useCache fc \<Longrightarrow> fc_settled fc = s \<Longrightarrow> tracked st k p s"
  unfolding tracked_def by blast

lemma tracked_step:
  assumes inv: "inflightInv st" and tr: "tracked st k p s" and ev: "ev = Finally p \<longrightarrow> \<not> s"
  shows "tracked (step cfg ev st) k p (s \<or> settles p ev)"
proof -
  from tr obtain fc where fc: "inflightReads st k = Some p" "pendingFetches st p = Some fc"
      "fc_cacheKey fc = k" "fc_useCache fc" "fc_settled fc = s"
    by (auto simp: tracked_def)
  show ?thesis
  proof (cases ev)
    case (Call sid rng useCache now)
    from readValues_shape [of cfg st sid rng useCache now] show ?thesis
    proof (elim disjE exE conjE)
      fix c assume "snd (readValues cfg st sid rng useCache now) = st\<lparr>readCache := c\<rparr>"
      with tr Call show ?thesis by (simp add: step_def)
    next
      fix c t k'
      assume k: "useCache \<longrightarrow> inflightReads st k' = None"
        and eq: "snd (readValues cfg st sid rng useCache now)
            = snd (startFetch (st\<lparr>readCache := c\<rparr>) sid t k' useCache now)"
      have "tracked (snd (startFetch (st\<lparr>readCache := c\<rparr>) sid t k' useCache now)) k p s"
        using inv tr k by (intro tracked_startFetch) simp_all
      with eq Call show ?thesis by (simp add: step_def)
    qed
  next
    case (Resolve q vals)
    show ?thesis
    proof (cases "q = p")
      case True
      obtain c where c: "thenCallback cfg fc vals st = st\<lparr>readCache := c\<rparr>"
        using thenCallback_shape by blast
      show ?thesis
      proof (cases s)
        case True
        with tr fc Resolve \<open>q = p\<close> show ?thesis by (simp add: step_def)
      next
        case False
        have "tracked (st\<lparr>readCache := c,
            pendingFetches := (pendingFetches st)(p \<mapsto> fc\<lparr>fc_settled := True\<rparr>)\<rparr>) k p True"
          using fc by (intro trackedI [of _ _ _ "fc\<lparr>fc_settled := True\<rparr>"]) simp_all
        with False fc Resolve \<open>q = p\<close> c show ?thesis by (simp add: step_def)
      qed
    next
      case False
      show ?thesis
      proof (cases "pendingFetches st q")
        case None
        with tr Resolve False show ?thesis by (simp add: step_def)
      next
        case (Some fcq)
        obtain c where c: "thenCallback cfg fcq vals st = st\<lparr>readCache := c\<rparr>"
          using thenCallback_shape by blast
        have "tracked (st\<lparr>readCache := c,
            pendingFetches := (pendingFetches st)(q \<mapsto> fcq\<lparr>fc_settled := True\<rparr>)\<rparr>) k p s"
          using fc False by (intro trackedI [of _ _ _ fc]) simp_all
        with tr Some Resolve False c show ?thesis by (simp add: step_def)
      qed
    qed
  next
    case (Reject q e)
    show ?thesis
    proof (cases "q = p")
      case True
      show ?thesis
      proof (cases s)
        case True
        with tr fc Reject \<open>q = p\<close> show ?thesis by (simp add: step_def)
      next
        case False
        have "tracked (st\<lparr>pendingFetches :=
            (pendingFetches st)(p \<mapsto> fc\<lparr>fc_settled := True\<rparr>)\<rparr>) k p True"
          using fc by (intro trackedI [of _ _ _ "fc\<lparr>fc_settled := True\<rparr>"]) simp_all
        with False fc Reject \<open>q = p\<close> show ?thesis by (simp add: step_def)
      qed
    next
      case False
      show ?thesis
      proof (cases "pendingFetches st q")
        case None
        with tr Reject False show ?thesis by (simp add: step_def)
      next
        case (Some fcq)
        have "tracked (st\<lparr>pendingFetches :=
            (pendingFetches st)(q \<mapsto> fcq\<lparr>fc_settled := True\<rparr>)\<rparr>) k p s"
          using fc False by (intro trackedI [of _ _ _ fc]) simp_all
        with tr Some Reject False show ?thesis by (simp add: step_def)
      qed
    qed
  next
    case (Finally q)
    show ?thesis
    proof (cases "q = p")
      case True
      with ev Finally have "\<not> s" by simp
      with tr fc Finally True show ?thesis by (simp add: step_def)
    next
      case False
      show ?thesis
      proof (cases "pendingFetches st q")
        case None
        with tr Finally show ?thesis by (simp add: step_def)
      next
        case (Some fcq)
        have key: "fc_useCache fcq \<longrightarrow> fc_cacheKey fcq \<noteq> k"
        proof (intro impI notI)
          assume "fc_useCache fcq" and "fc_cacheKey fcq = k"
          with inflightInv_pending [OF inv Some] fc(1) False show False by simp
        qed
        have "tracked ((if fc_useCache fcq then finallyCallback fcq st else st)
            \<lparr>pendingFetches := (pendingFetches st)(q := None)\<rparr>) k p s"
          using fc False key
          by (intro trackedI [of _ _ _ fc]) (auto simp: finallyCallback_def)
        with tr Some Finally show ?thesis by (simp add: step_def)
      qed
    qed
  qed
qed

lemma tracked_run_unsettled:
  "inflightInv st \<Longrightarrow> tracked st k p False \<Longrightarrow> \<forall>ev\<in>set evs. \<not> settles p ev \<Longrightarrow>
     tracked (run cfg evs st) k p False"
proof (induction evs arbitrary: st)
  case Nil
  then show ?case by simp
next
  case (Cons ev evs)
  from Cons.prems have "tracked (step cfg ev st) k p (False \<or> settles p ev)"
    by (intro tracked_step) simp_all
  with Cons.prems have "tracked (step cfg ev st) k p False" by simp
  with Cons show ?case by (simp add: inflightInv_step)
qed

lemma tracked_run_settled:
  "inflightInv st \<Longrightarrow> tracked st k p True \<Longrightarrow> Finally p \<notin> set evs \<Longrightarrow>
     tracked (run cfg evs st) k p True"
proof (induction evs arbitrary: st)
  case Nil
  then show ?case by simp
next
  case (Cons ev evs)
  from Cons.prems have "tracked (step cfg ev st) k p (True \<or> settles p ev)"
    by (intro tracked_step) auto
  with Cons show ?case by (simp add: inflightInv_step)
qed

lemma tracked_finally:
  assumes "tracked st k p True"
  shows "inflightReads (step cfg (Finally p) st) k = None"
  using assms by (auto simp: tracked_def step_def finallyCallback_def)

lemma run_append: "run cfg (evs @ evs') st = run cfg evs' (run cfg evs st)"
  by (induction evs arbitrary: st) simp_all

text \<open>The call that finds neither a valid entry nor a fetch in flight starts the fetch.\<close>

lemma readValues_starts_fetch:
  assumes "trim r \<noteq> []"
    and "\<forall>entry. map_of (readCache st) (sid @ '':'' @ trim r) = Some entry
           \<longrightarrow> \<not> now - timestamp entry \<le> CACHE_TTL cfg"
    and "inflightReads st (sid @ '':'' @ trim r) = None"
  shows "fst (readValues cfg st sid (Some r) True now) = Awaits (nextPromise st)"
    and "fetchCalls (snd (readValues cfg st sid (Some r) True now))
         = fetchCalls st @ [(sid, normalizedRange (trim r))]"
    and "tracked (snd (readValues cfg st sid (Some r) True now)) (sid @ '':'' @ trim r)
          (nextPromise st) False"
proof -
  let ?k = "sid @ '':'' @ trim r"
  have "\<exists>c. readValues cfg st sid (Some r) True now
      = startFetch (st\<lparr>readCache := c\<rparr>) sid (trim r) ?k True now"
  proof (cases "map_of (readCache st) ?k")
    case None
    with assms(1,3) show ?thesis
      by (intro exI [of _ "readCache st"]) (simp add: readValues_def afterCacheMiss_def Let_def)
  next
    case (Some entry)
    with assms show ?thesis
      by (intro exI [of _ "AList.delete ?k (readCache st)"])
        (simp add: readValues_def afterCacheMiss_def Let_def)
  qed
  then obtain c where c: "readValues cfg st sid (Some r) True now
      = startFetch (st\<lparr>readCache := c\<rparr>) sid (trim r) ?k True now"
    by blast
  show "fst (readValues cfg st sid (Some r) True now) = Awaits (nextPromise st)"
    by (simp add: c startFetch_fields)
  show "fetchCalls (snd (readValues cfg st sid (Some r) True now))
         = fetchCalls st @ [(sid, normalizedRange (trim r))]"
    by (simp add: c startFetch_fields)
  show "tracked (snd (readValues cfg st sid (Some r) True now)) ?k (nextPromise st) False"
    unfolding c
    by (rule trackedI [of _ _ _ "\<lparr>fc_cacheKey = ?k, fc_useCache = True, fc_now = now,
          fc_settled = False\<rparr>"]) (simp_all add: startFetch_fields)
qed

text \<open>The call that finds no valid entry and a fetch in flight is given that fetch.\<close>

lemma readValues_joins_fetch:
  assumes "trim r \<noteq> []"
    and "\<forall>entry. map_of (readCache st) (sid @ '':'' @ trim r) = Some entry
           \<longrightarrow> \<not> now - timestamp entry \<le> CACHE_TTL cfg"
    and "inflightReads st (sid @ '':'' @ trim r) = Some p"
  shows "fst (readValues cfg st sid (Some r) True now) = Awaits p"
    and "fetchCalls (snd (readValues cfg st sid (Some r) True now)) = fetchCalls st"
proof -
  let ?k = "sid @ '':'' @ trim r"
  have "\<exists>c. readValues cfg st sid (Some r) True now = (Awaits p, st\<lparr>readCache := c\<rparr>)"
  proof (cases "map_of (readCache st) ?k")
    case None
    with assms(1,3) show ?thesis
      by (intro exI [of _ "readCache st"]) (simp add: readValues_def afterCacheMiss_def Let_def)
  next
    case (Some entry)
    with assms show ?thesis
      by (intro exI [of _ "AList.delete ?k (readCache st)"])
        (simp add: readValues_def afterCacheMiss_def Let_def)
  qed
  then obtain c where c: "readValues cfg st sid (Some r) True now
      = (Awaits p, st\<lparr>readCache := c\<rparr>)"
    by blast
  show "fst (readValues cfg st sid (Some r) True now) = Awaits p" by (simp add: c)
  show "fetchCalls (snd (readValues cfg st sid (Some r) True now)) = fetchCalls st"
    by (simp add: c)
qed

text \<open>
  C2. In any reachable state, let a call of \<^verbatim>\<open>readValues\<close> with \<^verbatim>\<open>useCache\<close> find
  no valid cache entry for its key and no fetch in flight, and let a second call with the
  same key and \<^verbatim>\<open>useCache\<close> start, again with no valid entry, after any events that
  do not settle the first call's fetch. Then the first call issues exactly one fetch, the
  second none, and both are given the same promise, hence the same result or the same
  failure; and once the fetch has settled, fulfilled or rejected, the
  \<^verbatim>\<open>finally\<close> reaction leaves no registry entry for the key.
\<close>

theorem concurrent_reads_share_one_fetch:
  assumes reach: "st0 = run cfg evs0 initial"
    and key: "trim r1 \<noteq> []" "trim r2 = trim r1" "k = spreadsheetId @ '':'' @ trim r1"
    and miss1: "\<forall>entry. map_of (readCache st0) k = Some entry
           \<longrightarrow> \<not> now1 - timestamp entry \<le> CACHE_TTL cfg"
    and idle: "inflightReads st0 k = None"
    and call1: "readValues cfg st0 spreadsheetId (Some r1) True now1 = (out1, st1)"
    and between: "\<forall>ev\<in>set evs. \<not> settles (nextPromise st0) ev"
    and st2: "st2 = run cfg evs st1"
    and miss2: "\<forall>entry. map_of (readCache st2) k = Some entry
           \<longrightarrow> \<not> now2 - timestamp entry \<le> CACHE_TTL cfg"
    and call2: "readValues cfg st2 spreadsheetId (Some r2) True now2 = (out2, st3)"
  shows "out1 = Awaits (nextPromise st0) \<and> out2 = Awaits (nextPromise st0)
     \<and> fetchCalls st1 = fetchCalls st0 @ [(spreadsheetId, normalizedRange (trim r1))]
     \<and> fetchCalls st3 = fetchCalls st2
     \<and> (\<forall>ev evs'. settles (nextPromise st0) ev \<and> Finally (nextPromise st0) \<notin> set evs'
          \<longrightarrow> inflightReads (run cfg (ev # evs' @ [Finally (nextPromise st0)]) st3) k = None)"
proof -
  let ?p = "nextPromise st0"
  have inv0: "inflightInv st0"
    using reach by (simp add: inflightInv_run inflightInv_initial)
  have st1: "st1 = step cfg (Call spreadsheetId (Some r1) True now1) st0"
    using call1 by (simp add: step_def)
  have inv1: "inflightInv st1"
    unfolding st1 using inv0 by (rule inflightInv_step)
  have o1: "out1 = Awaits ?p"
    using readValues_starts_fetch(1) [of r1 st0 spreadsheetId now1 cfg] key miss1 idle call1
    by simp
  have f1: "fetchCalls st1 = fetchCalls st0 @ [(spreadsheetId, normalizedRange (trim r1))]"
    using readValues_starts_fetch(2) [of r1 st0 spreadsheetId now1 cfg] key miss1 idle call1
    by simp
  have t1: "tracked st1 k ?p False"
    using readValues_starts_fetch(3) [of r1 st0 spreadsheetId now1 cfg] key miss1 idle call1
    by simp
  have inv2: "inflightInv st2"
    unfolding st2 using inv1 by (rule inflightInv_run)
  have t2: "tracked st2 k ?p False"
    unfolding st2 using inv1 t1 between by (rule tracked_run_unsettled)
  then have reg2: "inflightReads st2 (spreadsheetId @ '':'' @ trim r2) = Some ?p"
    using key by (simp add: tracked_def)
  have o2: "out2 = Awaits ?p"
    using readValues_joins_fetch(1) [of r2 st2 spreadsheetId now2 cfg ?p] key miss2 reg2 call2
    by simp
  have f2: "fetchCalls st3 = fetchCalls st2"
    using readValues_joins_fetch(2) [of r2 st2 spreadsheetId now2 cfg ?p] key miss2 reg2 call2
    by simp
  have st3: "st3 = step cfg (Call spreadsheetId (Some r2) True now2) st2"
    using call2 by (simp add: step_def)
  have inv3: "inflightInv st3"
    unfolding st3 using inv2 by (rule inflightInv_step)
  have t3: "tracked st3 k ?p False"
    unfolding st3 using tracked_step [OF inv2 t2, of "Call spreadsheetId (Some r2) True now2" cfg]
    by simp
  have fin: "inflightReads (run cfg (ev # evs' @ [Finally ?p]) st3) k = None"
    if "settles ?p ev" and "Finally ?p \<notin> set evs'" for ev evs'
  proof -
    have "tracked (step cfg ev st3) k ?p (False \<or> settles ?p ev)"
      using inv3 t3 by (intro tracked_step) simp_all
    with that(1) have "tracked (step cfg ev st3) k ?p True" by simp
    then have "tracked (run cfg evs' (step cfg ev st3)) k ?p True"
      using inv3 that(2) by (intro tracked_run_settled inflightInv_step)
    then show ?thesis
      by (simp add: run_append tracked_finally)
  qed
  from o1 o2 f1 f2 fin show ?thesis by blast
qed

theorem concurrent_reads_share_one_fetch_witness:
  "fst (readValues \<lparr>CACHE_TTL = 10000, CACHE_MAX_ENTRIES = 200\<rparr> initial
          ''doc'' (Some ''Sheet1'') True 0) = Awaits 0
   \<and> fst (readValues \<lparr>CACHE_TTL = 10000, CACHE_MAX_ENTRIES = 200\<rparr>
          (run \<lparr>CACHE_TTL = 10000, CACHE_MAX_ENTRIES = 200\<rparr>
             [Call ''doc'' (Some ''Other'') True 1]
             (snd (readValues \<lparr>CACHE_TTL = 10000, CACHE_MAX_ENTRIES = 200\<rparr> initial
                     ''doc'' (Some ''Sheet1'') True 0)))
          ''doc'' (Some '' Sheet1 '') True 5) = Awaits 0
   \<and> fetchCalls (snd (readValues \<lparr>CACHE_TTL = 10000, CACHE_MAX_ENTRIES = 200\<rparr>
          (run \<lparr>CACHE_TTL = 10000, CACHE_MAX_ENTRIES = 200\<rparr>
             [Call ''doc'' (Some ''Other'') True 1]
             (snd (readValues \<lparr>CACHE_TTL = 10000, CACHE_MAX_ENTRIES = 200\<rparr> initial
                     ''doc'' (Some ''Sheet1'') True 0)))
          ''doc'' (Some '' Sheet1 '') True 5))
       = [(''doc'', ''Sheet1!A:ZZZ''), (''doc'', ''Other!A:ZZZ'')]
   \<and> inflightReads (run \<lparr>CACHE_TTL = 10000, CACHE_MAX_ENTRIES = 200\<rparr>
          [Resolve 0 [[JStr ''h'']], Finally 0]
          (snd (readValues \<lparr>CACHE_TTL = 10000, CACHE_MAX_ENTRIES = 200\<rparr>
            (run \<lparr>CACHE_TTL = 10000, CACHE_MAX_ENTRIES = 200\<rparr>
               [Call ''doc'' (Some ''Other'') True 1]
               (snd (readValues \<lparr>CACHE_TTL = 10000, CACHE_MAX_ENTRIES = 200\<rparr> initial
                       ''doc'' (Some ''Sheet1'') True 0)))
            ''doc'' (Some '' Sheet1 '') True 5))) ''doc:Sheet1'' = None
   \<and> inflightReads (run \<lparr>CACHE_TTL = 10000, CACHE_MAX_ENTRIES = 200\<rparr>
          [Reject 0 (Error ''unreachable''), Finally 0]
          (snd (readValues \<lparr>CACHE_TTL = 10000, CACHE_MAX_ENTRIES = 200\<rparr>
            (run \<lparr>CACHE_TTL = 10000, CACHE_MAX_ENTRIES = 200\<rparr>
               [Call ''doc'' (Some ''Other'') True 1]
               (snd (readValues \<lparr>CACHE_TTL = 10000, CACHE_MAX_ENTRIES = 200\<rparr> initial
                       ''doc'' (Some ''Sheet1'') True 0)))
            ''doc'' (Some '' Sheet1 '') True 5))) ''doc:Sheet1'' = None"
proof -
  let ?cfg = "\<lparr>CACHE_TTL = 10000, CACHE_MAX_ENTRIES = 200\<rparr>"
  let ?c1 = "readValues ?cfg initial ''doc'' (Some ''Sheet1'') True 0"
  let ?st2 = "run ?cfg [Call ''doc'' (Some ''Other'') True 1] (snd ?c1)"
  let ?c2 = "readValues ?cfg ?st2 ''doc'' (Some '' Sheet1 '') True 5"
  have c: "readCache ?st2 = []"
    by (simp add: service_eval)
  have n: "nextPromise initial = 0"
    by (simp add: initial_def)
  have f: "fetchCalls ?st2 = [(''doc'', ''Sheet1!A:ZZZ''), (''doc'', ''Other!A:ZZZ'')]"
    by (simp add: service_eval)
  have t: "trim ''Sheet1'' = ''Sheet1''" "trim '' Sheet1 '' = ''Sheet1''"
    by (simp_all add: trim_def isWhiteSpace_def)
  have "fst ?c1 = Awaits (nextPromise initial) \<and> fst ?c2 = Awaits (nextPromise initial)
     \<and> fetchCalls (snd ?c1) = fetchCalls initial @ [(''doc'', normalizedRange (trim ''Sheet1''))]
     \<and> fetchCalls (snd ?c2) = fetchCalls ?st2
     \<and> (\<forall>ev evs'. settles (nextPromise initial) ev \<and> Finally (nextPromise initial) \<notin> set evs'
          \<longrightarrow> inflightReads (run ?cfg (ev # evs' @ [Finally (nextPromise initial)]) (snd ?c2))
                ''doc:Sheet1'' = None)"
  proof (rule concurrent_reads_share_one_fetch
      [where ?evs0.0 = "[]" and ?r1.0 = "''Sheet1''" and ?r2.0 = "'' Sheet1 ''"
        and ?now1.0 = 0 and ?now2.0 = 5 and evs = "[Call ''doc'' (Some ''Other'') True 1]"])
    show "initial = run ?cfg [] initial" by simp
    show "trim ''Sheet1'' \<noteq> []" by (simp add: t)
    show "trim '' Sheet1 '' = trim ''Sheet1''" by (simp add: t)
    show "''doc:Sheet1'' = ''doc'' @ '':'' @ trim ''Sheet1''" by (simp add: t)
    show "\<forall>entry. map_of (readCache initial) ''doc:Sheet1'' = Some entry
           \<longrightarrow> \<not> 0 - timestamp entry \<le> CACHE_TTL ?cfg"
      by (simp add: initial_def)
    show "inflightReads initial ''doc:Sheet1'' = None" by (simp add: initial_def)
    show "?c1 = (fst ?c1, snd ?c1)" by simp
    show "\<forall>ev\<in>set [Call ''doc'' (Some ''Other'') True 1]. \<not> settles (nextPromise initial) ev"
      by simp
    show "?st2 = run ?cfg [Call ''doc'' (Some ''Other'') True 1] (snd ?c1)" by simp
    show "\<forall>entry. map_of (readCache ?st2) ''doc:Sheet1'' = Some entry
           \<longrightarrow> \<not> 5 - timestamp entry \<le> CACHE_TTL ?cfg"
      by (simp only: c) simp
    show "?c2 = (fst ?c2, snd ?c2)" by simp
  qed
  then have a: "fst ?c1 = Awaits 0" "fst ?c2 = Awaits 0" "fetchCalls (snd ?c2) = fetchCalls ?st2"
    and b: "\<And>ev evs'. settles 0 ev \<Longrightarrow> Finally 0 \<notin> set evs'
          \<Longrightarrow> inflightReads (run ?cfg (ev # evs' @ [Finally 0]) (snd ?c2)) ''doc:Sheet1'' = None"
    by (simp_all only: n) blast+
  have "inflightReads (run ?cfg [Resolve 0 [[JStr ''h'']], Finally 0] (snd ?c2)) ''doc:Sheet1''
      = None"
    using b [of "Resolve 0 [[JStr ''h'']]" "[]"] by simp
  moreover have "inflightReads (run ?cfg [Reject 0 (Error ''unreachable''), Finally 0] (snd ?c2))
      ''doc:Sheet1'' = None"
    using b [of "Reject 0 (Error ''unreachable'')" "[]"] by simp
  ultimately show ?thesis
    using a f by (simp only: simp_thms)
qed

subsection \<open>Updating rows\<close>

lemma indexOf_Some: "indexOf hs k = Some i \<Longrightarrow> i < length hs \<and> hs ! i = JStr k"
proof (induction hs arbitrary: i)
  case Nil
  then show ?case by simp
next
  case (Cons h hs)
  show ?case
  proof (cases "h = JStr k")
    case True
    with Cons.prems show ?thesis by simp
  next
    case False
    with Cons.prems obtain j where j: "indexOf hs k = Some j" "i = Suc j"
      by (cases "indexOf hs k") auto
    with Cons.IH [of j] show ?thesis by simp
  qed
qed

lemma indexOf_None: "indexOf hs k = None \<longleftrightarrow> JStr k \<notin> set hs"
  by (induction hs) auto

lemma applyEntry_length:
  "length (fst (applyEntry B headers (u, f) e)) = length u"
  by (cases e) (auto simp: applyEntry_def split: option.splits)

text \<open>A column that no entry of the patch names is left as it was.\<close>

lemma applyEntry_frame:
  assumes "headers ! i \<noteq> JStr (fst e)"
  shows "fst (applyEntry B headers (u, f) e) ! i = u ! i"
proof (cases "indexOf headers (fst e)")
  case None
  then show ?thesis by (cases e) (simp add: applyEntry_def)
next
  case (Some hi)
  with indexOf_Some [OF Some] assms have "hi \<noteq> i" by auto
  with Some show ?thesis by (cases e) (simp add: applyEntry_def)
qed

lemma foldl_applyEntry_length:
  "length (fst (foldl (applyEntry B headers) acc patch)) = length (fst acc)"
proof (induction patch arbitrary: acc)
  case Nil
  then show ?case by simp
next
  case (Cons e patch)
  show ?case
    using Cons.IH [of "applyEntry B headers acc e"] applyEntry_length [of B headers "fst acc" "snd acc" e]
    by simp
qed

lemma foldl_applyEntry_frame:
  assumes "\<forall>e\<in>set patch. headers ! i \<noteq> JStr (fst e)"
  shows "fst (foldl (applyEntry B headers) acc patch) ! i = fst acc ! i"
  using assms
proof (induction patch arbitrary: acc)
  case Nil
  then show ?case by simp
next
  case (Cons e patch)
  have "fst (applyEntry B headers acc e) ! i = fst acc ! i"
    using applyEntry_frame [of headers i e B "fst acc" "snd acc"] Cons.prems by simp
  with Cons show ?case by simp
qed


lemma existingValues_length [simp]: "length (existingValues B headers row) = length headers"
  by (simp add: existingValues_def)


lemma patchRow_frame:
  assumes "\<forall>e\<in>set patch. headers ! i \<noteq> JStr (fst e)"
  shows "fst (patchRow B headers row patch) ! i = existingValues B headers row ! i"
  unfolding patchRow_def using foldl_applyEntry_frame [OF assms] by simp

lemma patchRow_length [simp]: "length (fst (patchRow B headers row patch)) = length headers"
  unfolding patchRow_def by (simp add: foldl_applyEntry_length)

lemma patchRow_unknown_keys:
  assumes "\<forall>e\<in>set patch. JStr (fst e) \<notin> set headers"
  shows "patchRow B headers row patch = (existingValues B headers row, False)"
  unfolding patchRow_def using assms
proof (induction patch)
  case Nil
  then show ?case by simp
next
  case (Cons e patch)
  then have "indexOf headers (fst e) = None" by (simp add: indexOf_None)
  then have "applyEntry B headers (existingValues B headers row, False) e
      = (existingValues B headers row, False)"
    by (cases e) (simp add: applyEntry_def)
  with Cons show ?case by simp
qed

lemma filter_m_total:
  "\<forall>x\<in>set xs. \<not> isl (p x) \<Longrightarrow> filter_m p xs = Inr (filter (\<lambda>x. p x = Inr True) xs)"
proof (induction xs)
  case Nil
  then show ?case by simp
next
  case (Cons x xs)
  then obtain b where "p x = Inr b" by (cases "p x") auto
  with Cons show ?case by (cases b) auto
qed

lemma zip_indices: "zip xs [0..<length xs] = map (\<lambda>i. (xs ! i, i)) [0..<length xs]"
proof -
  have "zip xs [0..<length xs] = zip (map (\<lambda>i. xs ! i) [0..<length xs]) [0..<length xs]"
    by (simp add: map_nth)
  also have "\<dots> = map (\<lambda>i. (xs ! i, i)) [0..<length xs]"
    by (simp add: zip_map1 zip_same_conv_map)
  finally show ?thesis .
qed

lemma matchingIndices_total:
  assumes "\<forall>row\<in>set rows. \<not> isl (predicate row)"
  shows "matchingIndices predicate rows
     = Inr (filter (\<lambda>i. predicate (rows ! i) = Inr True) [0..<length rows])"
proof -
  have "\<forall>x\<in>set (zip rows [0..<length rows]). \<not> isl ((\<lambda>(row, index). predicate row) x)"
    using assms by (auto dest: set_zip_leftD)
  then have "filter_m (\<lambda>(row, index). predicate row) (zip rows [0..<length rows])
      = Inr (filter (\<lambda>x. (\<lambda>(row, index). predicate row) x = Inr True)
               (zip rows [0..<length rows]))"
    by (rule filter_m_total)
  moreover have "map snd (filter (\<lambda>x. (\<lambda>(row, index). predicate row) x = Inr True)
               (zip rows [0..<length rows]))
      = filter (\<lambda>i. predicate (rows ! i) = Inr True) [0..<length rows]"
    by (simp add: zip_indices filter_map comp_def)
  ultimately show ?thesis by (simp add: matchingIndices_def)
qed


lemma updateRows_unfold:
  assumes "vals \<noteq> []"
    and "matchingIndices (if truthy wh then buildPredicate B wh else (\<lambda>row. Inr True))
           (normalizeRows B (hd vals) (tl vals)) = Inr matching"
    and "List.map_filter (rowRequest B sheetName (hd vals)
                (normalizeRows B (hd vals) (tl vals)) patch)
              (if updateAll then matching else take 1 matching) = batch"
  shows "updateRows B sheetName (Inr vals) wh patch updateAll batchUpdate
     = (if matching \<noteq> [] \<and> batch \<noteq> []
        then (batch, case batchUpdate batch of
                       Some e \<Rightarrow> Inl e
                     | None \<Rightarrow> Inr \<lparr>updated = length batch, appended = 0\<rparr>)
        else ([], Inr \<lparr>updated = 0, appended = 0\<rparr>))"
proof -
  have u: "updateRows B sheetName (Inr vals) wh patch updateAll batchUpdate
     = (if length matching > 0 then
          (if length batch > 0 then
             (case batchUpdate batch of
                Some e \<Rightarrow> (batch, Inl e)
              | None \<Rightarrow> (batch, Inr \<lparr>updated = length batch, appended = 0\<rparr>))
           else ([], Inr \<lparr>updated = 0, appended = 0\<rparr>))
        else ([], Inr \<lparr>updated = 0, appended = 0\<rparr>))"
    unfolding updateRows_def Let_def using assms
    by (simp only: sum.case list.size length_0_conv if_False)
  show ?thesis
    unfolding u by (cases "batchUpdate batch") simp_all
qed




lemma foldl_update_lookup:
  "distinct (map K idxs) \<Longrightarrow> j \<in> set idxs \<Longrightarrow>
     map_of (foldl (\<lambda>acc i. AList.update (K i) (V i) acc) acc0 idxs) (K j) = Some (V j)"
proof (induction idxs rule: rev_induct)
  case Nil
  then show ?case by simp
next
  case (snoc i idxs)
  show ?case
  proof (cases "j = i")
    case True
    then show ?thesis by (simp add: update_conv')
  next
    case False
    with snoc.prems have j: "j \<in> set idxs" by simp
    from snoc.prems have "K i \<notin> K ` set idxs" by simp
    with j have "K j \<noteq> K i" by (metis imageI)
    with snoc j show ?thesis by (simp add: update_conv')
  qed
qed

lemma normalizeRow_get:
  assumes nonnull: "\<forall>h\<in>set headers. h \<noteq> JUndefined \<and> h \<noteq> JNull"
    and dist: "distinct (map (String_js B) headers)"
    and i: "i < length headers"
  shows "rowGet (normalizeRow B headers raw) (String_js B (headers ! i))
     = (if i < length raw then raw ! i else JStr [])"
proof -
  have key: "headerKey B headers j = String_js B (headers ! j)" if "j < length headers" for j
    using nonnull that by (auto simp: headerKey_def dest!: nth_mem)
  have d: "distinct (map (headerKey B headers) [0..<length headers])"
    unfolding distinct_map
  proof (intro conjI inj_onI)
    show "distinct [0..<length headers]" by simp
  next
    fix x y
    assume xy: "x \<in> set [0..<length headers]" "y \<in> set [0..<length headers]"
      and eq: "headerKey B headers x = headerKey B headers y"
    have "(map (String_js B) headers ! x = map (String_js B) headers ! y) = (x = y)"
      using dist xy by (intro nth_eq_iff_index_eq) simp_all
    with eq xy show "x = y"
      by (simp add: key)
  qed
  have "map_of (normalizeRow B headers raw) (headerKey B headers i)
      = Some (if i < length raw then raw ! i else JStr [])"
    unfolding normalizeRow_def using d i
    by (intro foldl_update_lookup [where V = "\<lambda>i. if i < length raw then raw ! i else JStr []"])
      simp_all
  then show ?thesis
    using i by (simp add: rowGet_def key)
qed

lemma updateRows_batch_cases:
  "fst (updateRows B sheetName (Inr vals) wh patch updateAll batchUpdate) = []
   \<or> (\<exists>targets. fst (updateRows B sheetName (Inr vals) wh patch updateAll batchUpdate)
        = List.map_filter (rowRequest B sheetName (hd vals)
            (normalizeRows B (hd vals) (tl vals)) patch) targets)"
proof (cases "vals = []")
  case True
  then show ?thesis by (simp add: updateRows_def)
next
  case False
  show ?thesis
  proof (cases "matchingIndices (if truthy wh then buildPredicate B wh else (\<lambda>row. Inr True))
           (normalizeRows B (hd vals) (tl vals))")
    case (Inl e)
    with False show ?thesis by (simp add: updateRows_def Let_def)
  next
    case (Inr matching)
    show ?thesis
      unfolding updateRows_unfold [OF False Inr refl] by auto
  qed
qed

lemma map_filter_Nil: "(\<forall>x\<in>set xs. g x = None) \<Longrightarrow> List.map_filter g xs = []"
  by (induction xs) simp_all

lemma in_map_filter: "y \<in> set (List.map_filter g xs) \<Longrightarrow> \<exists>x\<in>set xs. g x = Some y"
  by (auto simp: List.map_filter_def)

text \<open>
  C8, for a header row of distinct names, none of them null or undefined. Every request of
  the batch is the request for one row of the sheet: its range is the range of that row,
  and its one row of values has, in each column that the patch does not name, the cell of
  that same row of the sheet (the empty string for a cell that is missing or null). And a
  patch whose keys all lie outside the header row, on any header row, sends nothing to the
  backend and returns nothing but \<^verbatim>\<open>{updated: 0, appended: 0}\<close>, which it does return
  on a sheet with a header row and a predicate that does not raise, whatever rows match.
\<close>

theorem updateRows_unknown_keys_ignored:
  fixes B sheetName vals wh patch updateAll batchUpdate
  defines "headers \<equiv> hd vals"
    and "rows \<equiv> normalizeRows B (hd vals) (tl vals)"
    and "predicate \<equiv> (if truthy wh then buildPredicate B wh else (\<lambda>row. Inr True))"
  assumes "updateRows B sheetName (Inr vals) wh patch updateAll batchUpdate = (batch, res)"
  shows "((\<forall>h\<in>set headers. h \<noteq> JUndefined \<and> h \<noteq> JNull) \<and> distinct (map (String_js B) headers)
          \<longrightarrow> (\<forall>req\<in>set batch. \<exists>ri u. ri < length (tl vals)
                  \<and> req = \<lparr>req_range = rowRange sheetName headers ri, req_values = [u]\<rparr>
                  \<and> length u = length headers
                  \<and> (\<forall>i<length headers. (\<forall>e\<in>set patch. headers ! i \<noteq> JStr (fst e)) \<longrightarrow>
                        u ! i = (if i < length (tl vals ! ri) \<and> tl vals ! ri ! i \<noteq> JUndefined
                                    \<and> tl vals ! ri ! i \<noteq> JNull
                                 then tl vals ! ri ! i else JStr []))))
     \<and> ((\<forall>e\<in>set patch. JStr (fst e) \<notin> set headers) \<longrightarrow>
            batch = []
            \<and> (\<forall>r. res = Inr r \<longrightarrow> r = \<lparr>updated = 0, appended = 0\<rparr>)
            \<and> (vals \<noteq> [] \<and> (\<forall>row\<in>set rows. \<not> isl (predicate row))
                 \<longrightarrow> res = Inr \<lparr>updated = 0, appended = 0\<rparr>))"
proof (intro conjI impI ballI allI)
  fix req
  assume wf: "(\<forall>h\<in>set headers. h \<noteq> JUndefined \<and> h \<noteq> JNull) \<and> distinct (map (String_js B) headers)"
    and req: "req \<in> set batch"
  from assms(4) have b: "batch = fst (updateRows B sheetName (Inr vals) wh patch updateAll batchUpdate)"
    by simp
  with req updateRows_batch_cases [of B sheetName vals wh patch updateAll batchUpdate]
  obtain targets where "req \<in> set (List.map_filter (rowRequest B sheetName headers rows patch)
      targets)"
    unfolding headers_def rows_def by auto
  then obtain ri where ri: "rowRequest B sheetName headers rows patch ri = Some req"
    using in_map_filter by fastforce
  then have lt: "ri < length rows"
    by (auto simp: rowRequest_def split: if_splits)
  let ?u = "fst (patchRow B headers (rows ! ri) patch)"
  from ri lt have eq: "req = \<lparr>req_range = rowRange sheetName headers ri, req_values = [?u]\<rparr>"
    by (cases "patchRow B headers (rows ! ri) patch")
      (auto simp: rowRequest_def split: if_splits)
  from lt have rows': "rows = map (normalizeRow B headers) (tl vals)"
    unfolding rows_def headers_def by (auto simp: normalizeRows_def split: if_splits)
  with lt have lt': "ri < length (tl vals)" and row: "rows ! ri = normalizeRow B headers (tl vals ! ri)"
    by simp_all
  have cell: "existingValues B headers (rows ! ri) ! i
      = (if i < length (tl vals ! ri) \<and> tl vals ! ri ! i \<noteq> JUndefined \<and> tl vals ! ri ! i \<noteq> JNull
         then tl vals ! ri ! i else JStr [])" if i: "i < length headers" for i
    using i normalizeRow_get [of headers B i "tl vals ! ri"] wf
    by (simp add: existingValues_def row)
  have frame: "?u ! i = (if i < length (tl vals ! ri) \<and> tl vals ! ri ! i \<noteq> JUndefined
        \<and> tl vals ! ri ! i \<noteq> JNull then tl vals ! ri ! i else JStr [])"
    if "i < length headers" and "\<forall>e\<in>set patch. headers ! i \<noteq> JStr (fst e)" for i
    using patchRow_frame [OF that(2), of B "rows ! ri"] cell [OF that(1)] by simp
  from lt' eq frame
  show "\<exists>ri u. ri < length (tl vals)
      \<and> req = \<lparr>req_range = rowRange sheetName headers ri, req_values = [u]\<rparr>
      \<and> length u = length headers
      \<and> (\<forall>i<length headers. (\<forall>e\<in>set patch. headers ! i \<noteq> JStr (fst e)) \<longrightarrow>
            u ! i = (if i < length (tl vals ! ri) \<and> tl vals ! ri ! i \<noteq> JUndefined
                        \<and> tl vals ! ri ! i \<noteq> JNull
                     then tl vals ! ri ! i else JStr []))"
    by (intro exI [of _ ri] exI [of _ ?u]) simp
next
  assume un: "\<forall>e\<in>set patch. JStr (fst e) \<notin> set headers"
  have none: "rowRequest B sheetName headers rows patch ri = None" for ri
    using patchRow_unknown_keys [OF un] by (simp add: rowRequest_def)
  then have nil: "List.map_filter (rowRequest B sheetName headers rows patch) targets = []"
    for targets
    by (intro map_filter_Nil) simp
  from assms(4) have "batch = fst (updateRows B sheetName (Inr vals) wh patch updateAll batchUpdate)"
    by simp
  with updateRows_batch_cases [of B sheetName vals wh patch updateAll batchUpdate] nil
  show "batch = []" unfolding headers_def rows_def by auto
  have zero: "res = Inr \<lparr>updated = 0, appended = 0\<rparr>"
    if v: "vals \<noteq> []" and m: "matchingIndices predicate rows = Inr m" for m
    using updateRows_unfold [OF v m [unfolded predicate_def rows_def]
        nil [unfolded headers_def rows_def], where batchUpdate = batchUpdate] assms(4)
    by simp
  {
    fix r
    assume r: "res = Inr r"
    have v: "vals \<noteq> []"
      using r assms(4) by (auto simp: updateRows_def)
    obtain m where "matchingIndices predicate rows = Inr m"
      using r v assms(4) unfolding predicate_def rows_def
      by (cases "matchingIndices (if truthy wh then buildPredicate B wh else (\<lambda>row. Inr True))
            (normalizeRows B (hd vals) (tl vals))") (auto simp: updateRows_def Let_def)
    from zero [OF v this] r show "r = \<lparr>updated = 0, appended = 0\<rparr>" by simp
  next
    assume ok: "vals \<noteq> [] \<and> (\<forall>row\<in>set rows. \<not> isl (predicate row))"
    then have "matchingIndices predicate rows
        = Inr (filter (\<lambda>i. predicate (rows ! i) = Inr True) [0..<length rows])"
      by (intro matchingIndices_total) simp
    with ok zero show "res = Inr \<lparr>updated = 0, appended = 0\<rparr>" by blast
  }
qed

lemmas update_eval = normalizeRows_def normalizeRow_def headerKey_def patchRow_def
  applyEntry_def existingValues_def rowRange_def colIdxToA1_def colLoop.simps
  char_of_def bit_Suc_0_iff


text \<open>
  C8, as stated, for every call: header columns that the patch does not name keep their
  values in every written row. They do not under a repeated header name: the existing row
  is read by header name, where the last of two cells under one name has replaced the
  first. On the header row \<^verbatim>\<open>a, b, a\<close>, the row \<^verbatim>\<open>1, 2, 3\<close> and the patch
  \<^verbatim>\<open>{b: "x"}\<close>, column A, which the patch does not name and which holds
  \<^verbatim>\<open>1\<close>, is written as \<^verbatim>\<open>3\<close>.
\<close>

theorem updateRows_repeated_header_counterexample:
  "updateRows js ''S''
     (Inr [[JStr ''a'', JStr ''b'', JStr ''a''], [JStr ''1'', JStr ''2'', JStr ''3'']])
     JUndefined [(''b'', JStr ''x'')] False (\<lambda>batch. None)
   = ([\<lparr>req_range = ''S!A2:C2'', req_values = [[JStr ''3'', JStr ''x'', JStr ''3'']]\<rparr>],
      Inr \<lparr>updated = 1, appended = 0\<rparr>)"
proof -
  let ?vals = "[[JStr ''a'', JStr ''b'', JStr ''a''], [JStr ''1'', JStr ''2'', JStr ''3'']]"
  have rows: "normalizeRows js (hd ?vals) (tl ?vals) = [[(''a'', JStr ''3''), (''b'', JStr ''2'')]]"
    by (simp add: update_eval)
  have mi: "matchingIndices (\<lambda>row. Inr True) [[(''a'', JStr ''3''), (''b'', JStr ''2'')]] = Inr [0]"
    by (simp add: matchingIndices_def)
  show ?thesis
    by (simp add: updateRows_def rows mi rowRequest_def rowGet_def update_eval js_eval)
qed

text \<open>
  On a sheet of three rows, a patch with one known and one unknown key: the two requests
  carry the identifiers of their own rows, and the unknown key alone writes nothing.
\<close>

theorem updateRows_unknown_keys_ignored_witness:
  "updateRows js ''Tasks''
     (Inr [[JStr ''id'', JStr ''status''], [JStr ''1'', JStr ''open''],
           [JStr ''2'', JStr ''done''], [JStr ''3'', JStr ''open'']])
     JUndefined [(''status'', JStr ''done''), (''priority'', JStr ''high'')] True (\<lambda>batch. None)
   = ([\<lparr>req_range = ''Tasks!A2:B2'', req_values = [[JStr ''1'', JStr ''done'']]\<rparr>,
       \<lparr>req_range = ''Tasks!A4:B4'', req_values = [[JStr ''3'', JStr ''done'']]\<rparr>],
      Inr \<lparr>updated = 2, appended = 0\<rparr>)
   \<and> (\<exists>ri u. ri < 3
        \<and> \<lparr>req_range = ''Tasks!A4:B4'', req_values = [[JStr ''3'', JStr ''done'']]\<rparr>
            = \<lparr>req_range = rowRange ''Tasks'' [JStr ''id'', JStr ''status''] ri, req_values = [u]\<rparr>
        \<and> u ! 0 = [[JStr ''1'', JStr ''open''], [JStr ''2'', JStr ''done''],
                    [JStr ''3'', JStr ''open'']] ! ri ! 0)
   \<and> updateRows js ''Tasks''
     (Inr [[JStr ''id'', JStr ''status''], [JStr ''1'', JStr ''open''],
           [JStr ''2'', JStr ''done''], [JStr ''3'', JStr ''open'']])
     JUndefined [(''priority'', JStr ''high'')] True (\<lambda>batch. None)
   = ([], Inr \<lparr>updated = 0, appended = 0\<rparr>)"
proof -
  let ?vals = "[[JStr ''id'', JStr ''status''], [JStr ''1'', JStr ''open''],
           [JStr ''2'', JStr ''done''], [JStr ''3'', JStr ''open'']]"
  let ?patch = "[(''status'', JStr ''done''), (''priority'', JStr ''high'')]"
  let ?req = "\<lparr>req_range = ''Tasks!A4:B4'', req_values = [[JStr ''3'', JStr ''done'']]\<rparr>"
  let ?call1 = "updateRows js ''Tasks'' (Inr ?vals) JUndefined ?patch True (\<lambda>batch. None)"
  let ?call = "updateRows js ''Tasks'' (Inr ?vals) JUndefined [(''priority'', JStr ''high'')] True
      (\<lambda>batch. None)"
  have rows: "normalizeRows js (hd ?vals) (tl ?vals)
      = [[(''id'', JStr ''1''), (''status'', JStr ''open'')],
         [(''id'', JStr ''2''), (''status'', JStr ''done'')],
         [(''id'', JStr ''3''), (''status'', JStr ''open'')]]"
    by (simp add: update_eval)
  have mi: "matchingIndices (\<lambda>row. Inr True)
      [[(''id'', JStr ''1''), (''status'', JStr ''open'')],
       [(''id'', JStr ''2''), (''status'', JStr ''done'')],
       [(''id'', JStr ''3''), (''status'', JStr ''open'')]] = Inr [0, 1, 2]"
    by (simp add: matchingIndices_def)
  have a: "?call1
     = ([\<lparr>req_range = ''Tasks!A2:B2'', req_values = [[JStr ''1'', JStr ''done'']]\<rparr>, ?req],
        Inr \<lparr>updated = 2, appended = 0\<rparr>)"
    by (simp add: updateRows_def rows mi rowRequest_def rowGet_def update_eval js_eval)
  have wf: "(\<forall>h\<in>set (hd ?vals). h \<noteq> JUndefined \<and> h \<noteq> JNull)
      \<and> distinct (map (String_js js) (hd ?vals))"
    by simp
  have named: "\<forall>e\<in>set ?patch. hd ?vals ! 0 \<noteq> JStr (fst e)" by simp
  from updateRows_unknown_keys_ignored [OF a] wf
  have "\<exists>ri u. ri < length (tl ?vals)
      \<and> ?req = \<lparr>req_range = rowRange ''Tasks'' (hd ?vals) ri, req_values = [u]\<rparr>
      \<and> length u = length (hd ?vals)
      \<and> (\<forall>i<length (hd ?vals). (\<forall>e\<in>set ?patch. hd ?vals ! i \<noteq> JStr (fst e)) \<longrightarrow>
            u ! i = (if i < length (tl ?vals ! ri) \<and> tl ?vals ! ri ! i \<noteq> JUndefined
                        \<and> tl ?vals ! ri ! i \<noteq> JNull
                     then tl ?vals ! ri ! i else JStr []))"
    by (simp only: list.set insert_iff ball_simps) blast
  then obtain ri u where ri: "ri < length (tl ?vals)"
    and eq: "?req = \<lparr>req_range = rowRange ''Tasks'' (hd ?vals) ri, req_values = [u]\<rparr>"
    and fr: "\<forall>i<length (hd ?vals). (\<forall>e\<in>set ?patch. hd ?vals ! i \<noteq> JStr (fst e)) \<longrightarrow>
            u ! i = (if i < length (tl ?vals ! ri) \<and> tl ?vals ! ri ! i \<noteq> JUndefined
                        \<and> tl ?vals ! ri ! i \<noteq> JNull
                     then tl ?vals ! ri ! i else JStr [])"
    by blast
  from ri have ri3: "ri < 3" by simp
  then have cases: "ri = 0 \<or> ri = 1 \<or> ri = 2" by auto
  from fr named have "u ! 0 = (if 0 < length (tl ?vals ! ri) \<and> tl ?vals ! ri ! 0 \<noteq> JUndefined
                        \<and> tl ?vals ! ri ! 0 \<noteq> JNull
                     then tl ?vals ! ri ! 0 else JStr [])"
    by simp
  with cases have "u ! 0 = tl ?vals ! ri ! 0"
    by auto
  with ri3 eq have mid: "\<exists>ri u. ri < 3
        \<and> ?req = \<lparr>req_range = rowRange ''Tasks'' [JStr ''id'', JStr ''status''] ri, req_values = [u]\<rparr>
        \<and> u ! 0 = [[JStr ''1'', JStr ''open''], [JStr ''2'', JStr ''done''],
                    [JStr ''3'', JStr ''open'']] ! ri ! 0"
    by (intro exI [of _ ri] exI [of _ u]) simp
  have un: "\<forall>e\<in>set [(''priority'', JStr ''high'')]. JStr (fst e) \<notin> set (hd ?vals)" by simp
  have ok: "?vals \<noteq> [] \<and> (\<forall>row\<in>set (normalizeRows js (hd ?vals) (tl ?vals)).
      \<not> isl ((if truthy JUndefined then buildPredicate js JUndefined else (\<lambda>row. Inr True)) row))"
    by simp
  have "?call = (fst ?call, snd ?call)" by simp
  from updateRows_unknown_keys_ignored [OF this] un ok
  have "fst ?call = [] \<and> snd ?call = Inr \<lparr>updated = 0, appended = 0\<rparr>" by blast
  then have "?call = ([], Inr \<lparr>updated = 0, appended = 0\<rparr>)"
    by (simp add: prod_eq_iff)
  with a mid show ?thesis by simp
qed

end
